theory Spec2Isabelle
  imports Complex_Main "HOL-Library.Sublist" "HOL-Library.Multiset"
begin

section \<open>Data model\<close>

text \<open>
  The \<open>Photo\<close> interface of \<open>types/photo\<close>. The fields \<open>id\<close>, \<open>size\<close> and \<open>type\<close> carry the
  suffix \<open>P\<close> because the plain names are taken in HOL. A JavaScript string is a \<open>string\<close>:
  the list of the bytes of its UTF-8 encoding (one byte for an ASCII character, two for
  a Greek letter). The optional \<open>location\<close> is an \<open>option\<close>.
\<close>

record Photo =
  idP :: string
  name :: string
  url :: string
  thumbnail :: string
  sizeP :: int
  typeP :: string
  width :: int
  height :: int
  uploadedAt :: string
  isFavorite :: bool
  tags :: "string list"
  location :: "string option"

text \<open>
  A state cell declared as \<open>Photo | null\<close> holds \<open>null\<close>, a photo, or (after an array read
  out of range) \<open>undefined\<close>. Both \<open>null\<close> and \<open>undefined\<close> are falsy.
\<close>

datatype 'a js_value = Null | Undefined | Obj 'a

fun truthy :: "'a js_value \<Rightarrow> bool" where
  "truthy (Obj x) = True"
| "truthy Null = False"
| "truthy Undefined = False"

section \<open>JavaScript primitives used by the handlers\<close>

text \<open>
  \<open>Array.prototype.findIndex\<close>: the index of the first element that satisfies the
  predicate, \<open>-1\<close> when there is none.
\<close>

fun findIndex :: "('a \<Rightarrow> bool) \<Rightarrow> 'a list \<Rightarrow> int" where
  "findIndex P [] = - 1"
| "findIndex P (x # xs) =
     (if P x then 0
      else (let i = findIndex P xs in if i = - 1 then - 1 else i + 1))"

text \<open>
  The remainder operator \<open>%\<close> on integral numbers: the result has the sign of the
  dividend, and a zero divisor gives \<open>NaN\<close>, modelled as \<open>None\<close>.
\<close>

definition js_rem :: "int \<Rightarrow> int \<Rightarrow> int option" where
  "js_rem a b = (if b = 0 then None else Some (sgn a * (\<bar>a\<bar> mod \<bar>b\<bar>)))"

text \<open>
  An array read \<open>xs[i]\<close>: the element when \<open>i\<close> is an index of the array, \<open>undefined\<close>
  for a negative index, an index past the end, or \<open>NaN\<close>.
\<close>

fun js_index :: "'a list \<Rightarrow> int option \<Rightarrow> 'a js_value" where
  "js_index xs None = Undefined"
| "js_index xs (Some i) =
     (if 0 \<le> i \<and> i < int (length xs) then Obj (xs ! nat i) else Undefined)"

section \<open>Viewer navigation (App: onNext / onPrevious)\<close>

text \<open>
  The two closures that \<open>App\<close> hands to \<open>PhotoViewer\<close>. They exist only while
  \<open>selectedPhoto\<close> is truthy, so they take the selected photo itself; the value they pass
  to \<open>setSelectedPhoto\<close> is the result.
\<close>

definition onNext :: "Photo list \<Rightarrow> Photo \<Rightarrow> Photo js_value" where
  "onNext displayPhotos selectedPhoto =
     (let currentIndex = findIndex (\<lambda>p. idP p = idP selectedPhoto) displayPhotos;
          nextIndex = js_rem (currentIndex + 1) (int (length displayPhotos))
      in js_index displayPhotos nextIndex)"

definition onPrevious :: "Photo list \<Rightarrow> Photo \<Rightarrow> Photo js_value" where
  "onPrevious displayPhotos selectedPhoto =
     (let currentIndex = findIndex (\<lambda>p. idP p = idP selectedPhoto) displayPhotos;
          prevIndex = (if currentIndex = 0 then int (length displayPhotos) - 1
                       else currentIndex - 1)
      in js_index displayPhotos (Some prevIndex))"

text \<open>
  The viewer is mounted by \<open>selectedPhoto && <PhotoViewer .../>\<close>: with a falsy
  \<open>selectedPhoto\<close> there is no viewer and no handler, and the cell keeps its value.
\<close>

fun viewerNext :: "Photo list \<Rightarrow> Photo js_value \<Rightarrow> Photo js_value" where
  "viewerNext displayPhotos (Obj p) = onNext displayPhotos p"
| "viewerNext displayPhotos v = v"

fun viewerPrevious :: "Photo list \<Rightarrow> Photo js_value \<Rightarrow> Photo js_value" where
  "viewerPrevious displayPhotos (Obj p) = onPrevious displayPhotos p"
| "viewerPrevious displayPhotos v = v"

fun currentPhotoId :: "Photo js_value \<Rightarrow> string option" where
  "currentPhotoId (Obj p) = Some (idP p)"
| "currentPhotoId v = None"

text \<open>A photo with the given id and name, for concrete runs.\<close>

definition mkPhoto :: "string \<Rightarrow> string \<Rightarrow> Photo" where
  "mkPhoto i n =
     \<lparr>idP = i, name = n, url = '''', thumbnail = '''', sizeP = 0, typeP = ''image/png'',
      width = 1, height = 1, uploadedAt = ''2024-01-01T00:00:00.000Z'',
      isFavorite = False, tags = [], location = None\<rparr>"

section \<open>Viewer state (PhotoViewer)\<close>

text \<open>
  The local state of a mounted \<open>PhotoViewer\<close>. \<open>zoom\<close> and the coordinates are JavaScript
  numbers; they are modelled as reals, and the rounding of a floating-point product or
  quotient is the parameter \<open>rnd\<close> of the zoom handlers (the identity for exact
  arithmetic). The constants \<open>1.5\<close>, \<open>5\<close> and \<open>0.5\<close> are floating-point numbers.
\<close>

record ViewerState =
  showInfo :: bool
  zoom :: real
  position :: "real \<times> real"
  isDragging :: bool
  dragStart :: "real \<times> real"

definition initialViewerState :: ViewerState where
  "initialViewerState =
     \<lparr>showInfo = False, zoom = 1, position = (0, 0), isDragging = False, dragStart = (0, 0)\<rparr>"

definition handleZoomIn :: "(real \<Rightarrow> real) \<Rightarrow> ViewerState \<Rightarrow> ViewerState" where
  "handleZoomIn rnd v = v\<lparr>zoom := min (rnd (zoom v * 1.5)) 5\<rparr>"

definition handleZoomOut :: "(real \<Rightarrow> real) \<Rightarrow> ViewerState \<Rightarrow> ViewerState" where
  "handleZoomOut rnd v = v\<lparr>zoom := max (rnd (zoom v / 1.5)) 0.5\<rparr>"

datatype ZoomButton = ZoomIn | ZoomOut

fun pressZoom :: "(real \<Rightarrow> real) \<Rightarrow> ViewerState \<Rightarrow> ZoomButton \<Rightarrow> ViewerState" where
  "pressZoom rnd v ZoomIn = handleZoomIn rnd v"
| "pressZoom rnd v ZoomOut = handleZoomOut rnd v"

text \<open>
  Dragging: the mouse handlers receive the pointer position \<open>(clientX, clientY)\<close>.
\<close>

definition handleMouseDown :: "real \<times> real \<Rightarrow> ViewerState \<Rightarrow> ViewerState" where
  "handleMouseDown client v =
     (if zoom v > 1
      then v\<lparr>isDragging := True,
             dragStart := (fst client - fst (position v), snd client - snd (position v))\<rparr>
      else v)"

definition handleMouseMove :: "real \<times> real \<Rightarrow> ViewerState \<Rightarrow> ViewerState" where
  "handleMouseMove client v =
     (if isDragging v \<and> zoom v > 1
      then v\<lparr>position := (fst client - fst (dragStart v), snd client - snd (dragStart v))\<rparr>
      else v)"

definition handleMouseUp :: "ViewerState \<Rightarrow> ViewerState" where
  "handleMouseUp v = v\<lparr>isDragging := False\<rparr>"

text \<open>
  The effect \<open>useEffect(() => { setZoom(1); setPosition({x: 0, y: 0}) }, [photo.id])\<close>:
  after a render it runs when \<open>photo.id\<close> differs from the id of the previous render,
  and not otherwise.
\<close>

definition resetEffect :: "string \<Rightarrow> string \<Rightarrow> ViewerState \<Rightarrow> ViewerState" where
  "resetEffect prevId newId v =
     (if newId \<noteq> prevId then v\<lparr>zoom := 1, position := (0, 0)\<rparr> else v)"

text \<open>
  \<open>App\<close> together with the viewer it mounts: the cell \<open>selectedPhoto\<close>, and the local
  state of the \<open>PhotoViewer\<close>, which exists exactly while \<open>selectedPhoto\<close> is truthy
  (\<open>None\<close>: no viewer is mounted). A viewer that is mounted anew starts from
  \<open>initialViewerState\<close>; one that stays mounted keeps its state and runs the effect.
\<close>

record AppViewer =
  selectedPhoto :: "Photo js_value"
  viewer :: "ViewerState option"

fun setSelectedPhoto :: "Photo js_value \<Rightarrow> AppViewer \<Rightarrow> AppViewer" where
  "setSelectedPhoto (Obj p) s =
     (case (selectedPhoto s, viewer s) of
        (Obj old, Some v) \<Rightarrow>
          \<lparr>selectedPhoto = Obj p, viewer = Some (resetEffect (idP old) (idP p) v)\<rparr>
      | _ \<Rightarrow> \<lparr>selectedPhoto = Obj p, viewer = Some initialViewerState\<rparr>)"
| "setSelectedPhoto v s = \<lparr>selectedPhoto = v, viewer = None\<rparr>"

definition pressNext :: "Photo list \<Rightarrow> AppViewer \<Rightarrow> AppViewer" where
  "pressNext displayPhotos s =
     (case selectedPhoto s of
        Obj p \<Rightarrow> setSelectedPhoto (onNext displayPhotos p) s
      | _ \<Rightarrow> s)"

definition pressPrevious :: "Photo list \<Rightarrow> AppViewer \<Rightarrow> AppViewer" where
  "pressPrevious displayPhotos s =
     (case selectedPhoto s of
        Obj p \<Rightarrow> setSelectedPhoto (onPrevious displayPhotos p) s
      | _ \<Rightarrow> s)"

section \<open>Selection (PhotoGrid)\<close>

text \<open>
  A JavaScript \<open>Set\<close> of strings is the list of its elements in insertion order, which
  is the order \<open>forEach\<close> and \<open>for ... of\<close> visit them in.
\<close>

type_synonym js_set = "string list"

definition set_has :: "js_set \<Rightarrow> string \<Rightarrow> bool" where
  "set_has xs x = (x \<in> set xs)"

definition set_delete :: "string \<Rightarrow> js_set \<Rightarrow> js_set" where
  "set_delete x xs = removeAll x xs"

definition set_add :: "string \<Rightarrow> js_set \<Rightarrow> js_set" where
  "set_add x xs = (if x \<in> set xs then xs else xs @ [x])"

definition new_Set :: "string list \<Rightarrow> js_set" where
  "new_Set xs = fold set_add xs []"

record SelectionState =
  selectedPhotos :: js_set
  isSelectionMode :: bool

definition initialSelection :: SelectionState where
  "initialSelection = \<lparr>selectedPhotos = new_Set [], isSelectionMode = False\<rparr>"

definition togglePhotoSelection :: "string \<Rightarrow> SelectionState \<Rightarrow> SelectionState" where
  "togglePhotoSelection photoId s =
     (let prev = selectedPhotos s;
          newSet = (if set_has prev photoId then set_delete photoId prev
                    else set_add photoId prev)
      in \<lparr>selectedPhotos = newSet,
          isSelectionMode = (if length newSet = 0 then False else isSelectionMode s)\<rparr>)"

definition startSelectionMode :: "string \<Rightarrow> SelectionState \<Rightarrow> SelectionState" where
  "startSelectionMode photoId s = \<lparr>selectedPhotos = new_Set [photoId], isSelectionMode = True\<rparr>"

definition exitSelectionMode :: "SelectionState \<Rightarrow> SelectionState" where
  "exitSelectionMode s = \<lparr>selectedPhotos = new_Set [], isSelectionMode = False\<rparr>"

definition selectAllPhotos :: "Photo list \<Rightarrow> SelectionState \<Rightarrow> SelectionState" where
  "selectAllPhotos photos s = s\<lparr>selectedPhotos := new_Set (map idP photos)\<rparr>"

text \<open>
  \<open>handlePhotoClick\<close>: in selection mode the click toggles the photo; otherwise it is
  handed to \<open>onPhotoClick\<close> (the second component: the photo the viewer is opened on).
\<close>

definition handlePhotoClick :: "Photo \<Rightarrow> SelectionState \<Rightarrow> SelectionState \<times> Photo option" where
  "handlePhotoClick photo s =
     (if isSelectionMode s then (togglePhotoSelection (idP photo) s, None)
      else (s, Some photo))"

text \<open>
  The three bulk buttons of the selection toolbar. The callbacks \<open>onToggleFavorite\<close>,
  \<open>onDeletePhoto\<close> and \<open>downloadPhoto\<close> act on whatever lies outside the grid; that is
  the state \<open>'w\<close>, which each call transforms. \<open>fold\<close> calls them in the order of the set.
  \<open>downloadOne\<close> is the body of the \<open>for ... of\<close> loop of the download button.
\<close>

definition favoriteSelected :: "(string \<Rightarrow> 'w \<Rightarrow> 'w) \<Rightarrow> SelectionState \<Rightarrow> 'w \<Rightarrow> 'w" where
  "favoriteSelected onToggleFavorite s w = fold onToggleFavorite (selectedPhotos s) w"

definition downloadOne ::
  "(Photo \<Rightarrow> 'w \<Rightarrow> 'w) \<Rightarrow> Photo list \<Rightarrow> string \<Rightarrow> 'w \<Rightarrow> 'w" where
  "downloadOne downloadPhoto photos photoId w =
     (case find (\<lambda>p. idP p = photoId) photos of
        Some photo \<Rightarrow> downloadPhoto photo w
      | None \<Rightarrow> w)"

definition downloadSelected ::
  "(Photo \<Rightarrow> 'w \<Rightarrow> 'w) \<Rightarrow> Photo list \<Rightarrow> SelectionState \<Rightarrow> 'w \<Rightarrow> 'w" where
  "downloadSelected downloadPhoto photos s w =
     fold (downloadOne downloadPhoto photos) (selectedPhotos s) w"

definition deleteSelected ::
  "(string \<Rightarrow> 'w \<Rightarrow> 'w) \<Rightarrow> SelectionState \<Rightarrow> 'w \<Rightarrow> SelectionState \<times> 'w" where
  "deleteSelected onDeletePhoto s w =
     (exitSelectionMode s, fold onDeletePhoto (selectedPhotos s) w)"

text \<open>A callback that records the argument of each call, in call order.\<close>

definition record_call :: "'a \<Rightarrow> 'a list \<Rightarrow> 'a list" where
  "record_call x calls = calls @ [x]"

text \<open>
  What the user can do to the grid. A control exists only when it is rendered: nothing
  is rendered for an empty \<open>photos\<close> (\<open>if (photos.length === 0) return null\<close>), the
  toolbar only in selection mode, a tile only for a photo of \<open>photos\<close>, the delete button
  only when \<open>onDeletePhoto\<close> is passed, and the context menu starts a selection only
  outside selection mode. An event on a control that is not there changes nothing.
  The props can differ from one event to the next. \<open>App\<close> mounts the grid only while
  \<open>displayPhotos\<close> is not empty; \<open>Remount\<close> is the grid taken away and mounted again,
  which starts its state afresh.
\<close>

datatype GridEvent =
  Click Photo | ContextMenu Photo | SelectAll | FavoriteButton | DownloadButton
  | DeleteButton | CancelButton | Remount

record PhotoGridProps =
  photosProp :: "Photo list"
  onDeletePhotoProp :: bool

definition gridStep :: "SelectionState \<Rightarrow> PhotoGridProps \<times> GridEvent \<Rightarrow> SelectionState" where
  "gridStep s pe =
     (let photos = photosProp (fst pe); toolbar = (photos \<noteq> [] \<and> isSelectionMode s) in
      case snd pe of
        Click photo \<Rightarrow> if photo \<in> set photos then fst (handlePhotoClick photo s) else s
      | ContextMenu photo \<Rightarrow>
          if photo \<in> set photos \<and> \<not> isSelectionMode s then startSelectionMode (idP photo) s
          else s
      | SelectAll \<Rightarrow> if toolbar then selectAllPhotos photos s else s
      | FavoriteButton \<Rightarrow> s
      | DownloadButton \<Rightarrow> s
      | DeleteButton \<Rightarrow>
          if toolbar \<and> onDeletePhotoProp (fst pe)
          then fst (deleteSelected (\<lambda>photoId w. w) s ()) else s
      | CancelButton \<Rightarrow> if toolbar then exitSelectionMode s else s
      | Remount \<Rightarrow> initialSelection)"

definition gridRun :: "(PhotoGridProps \<times> GridEvent) list \<Rightarrow> SelectionState" where
  "gridRun events = foldl gridStep initialSelection events"

section \<open>Photo store (App)\<close>

text \<open>
  \<open>String.prototype.includes\<close>: the argument occurs in the string as a block of
  consecutive characters, at some position. For text without unpaired surrogates this
  is the same on the UTF-16 code units JavaScript compares and on the UTF-8 bytes here,
  since in both encodings a character can only start where a character starts.
\<close>

fun includesStr :: "string \<Rightarrow> string \<Rightarrow> bool" where
  "includesStr [] q = (q = [])"
| "includesStr (c # s) q = (prefix q (c # s) \<or> includesStr s q)"

text \<open>
  \<open>filteredPhotos\<close> of \<open>App\<close>. \<open>String.prototype.toLowerCase\<close> is a function of the
  language, defined by the case mappings of the Unicode character database; it is the
  parameter \<open>toLowerCase\<close>, so that what is proved of \<open>filteredPhotos\<close> holds of the program
  whatever those tables say.
\<close>

definition filteredPhotos :: "(string \<Rightarrow> string) \<Rightarrow> string \<Rightarrow> Photo list \<Rightarrow> Photo list" where
  "filteredPhotos toLowerCase searchQuery photos =
     filter (\<lambda>photo.
        includesStr (toLowerCase (name photo)) (toLowerCase searchQuery) \<or>
        list_ex (\<lambda>tag. includesStr (toLowerCase tag) (toLowerCase searchQuery)) (tags photo))
       photos"

text \<open>
  What the code compares: the lower-cased string has the lower-cased query as a block
  of consecutive characters; a photo matches when its name or one of its tags does.
\<close>

definition containsLowered :: "(string \<Rightarrow> string) \<Rightarrow> string \<Rightarrow> string \<Rightarrow> bool" where
  "containsLowered toLowerCase s q = (\<exists>pre suf. toLowerCase s = pre @ toLowerCase q @ suf)"

definition matchesLowered :: "(string \<Rightarrow> string) \<Rightarrow> string \<Rightarrow> Photo \<Rightarrow> bool" where
  "matchesLowered toLowerCase q photo =
     (containsLowered toLowerCase (name photo) q
      \<or> (\<exists>tag \<in> set (tags photo). containsLowered toLowerCase tag q))"

text \<open>
  What the spec asks of the search, in its own words, with no lower-casing in it: two
  characters are the same up to case when they are equal or one is an ASCII capital and
  the other its small letter (32 further on); a string contains the query as a
  case-insensitive substring when some block of consecutive characters of it is the
  query up to case, character by character; a photo matches when its name or one of its
  tags does.
\<close>

definition isAsciiCapital :: "char \<Rightarrow> bool" where
  "isAsciiCapital c = (65 \<le> (of_char c :: nat) \<and> (of_char c :: nat) \<le> 90)"

definition sameIgnoringCase :: "char \<Rightarrow> char \<Rightarrow> bool" where
  "sameIgnoringCase a b =
     (a = b \<or> (isAsciiCapital a \<and> (of_char b :: nat) = of_char a + 32)
            \<or> (isAsciiCapital b \<and> (of_char a :: nat) = of_char b + 32))"

definition containsIgnoringCase :: "string \<Rightarrow> string \<Rightarrow> bool" where
  "containsIgnoringCase s q =
     (\<exists>pre mid suf. s = pre @ mid @ suf \<and> list_all2 sameIgnoringCase mid q)"

definition matchesQuery :: "string \<Rightarrow> Photo \<Rightarrow> bool" where
  "matchesQuery q photo =
     (containsIgnoringCase (name photo) q \<or> (\<exists>tag \<in> set (tags photo). containsIgnoringCase tag q))"

text \<open>
  On ASCII text \<open>String.prototype.toLowerCase\<close> replaces each capital by its small letter
  and leaves every other character as it is: it is \<open>map asciiToLower\<close>.
\<close>

definition isAscii :: "string \<Rightarrow> bool" where
  "isAscii s = list_all (\<lambda>c. (of_char c :: nat) < 128) s"

definition asciiToLower :: "char \<Rightarrow> char" where
  "asciiToLower c =
     (let n = (of_char c :: nat) in if 65 \<le> n \<and> n \<le> 90 then char_of (n + 32) else c)"

text \<open>
  \<open>String.prototype.toLowerCase\<close> as the ECMAScript specification defines it, written
  out for strings made of ASCII letters, digits and spaces and of the Greek letters
  capital sigma (U+03A3, bytes \<open>CE A3\<close>), small sigma (U+03C3, \<open>CF 83\<close>) and final small
  sigma (U+03C2, \<open>CF 82\<close>), for concrete runs. A capital sigma becomes the final small sigma when a
  cased letter stands right before it and none right after it (the Final_Sigma
  condition of the Unicode special casing), and the small sigma otherwise; an ASCII
  capital becomes its small letter; small letters, digits and spaces stay.
  \<open>afterCased\<close> tells whether the character just passed is a cased letter.
\<close>

definition isAsciiLetter :: "char \<Rightarrow> bool" where
  "isAsciiLetter c =
     (let n = (of_char c :: nat) in (65 \<le> n \<and> n \<le> 90) \<or> (97 \<le> n \<and> n \<le> 122))"

fun casedAhead :: "string \<Rightarrow> bool" where
  "casedAhead [] = False"
| "casedAhead [c] = isAsciiLetter c"
| "casedAhead (c # d # cs) =
     (isAsciiLetter c \<or> (c = CHR 0xCE \<and> d = CHR 0xA3)
      \<or> (c = CHR 0xCF \<and> (d = CHR 0x83 \<or> d = CHR 0x82)))"

fun lowerFrom :: "bool \<Rightarrow> string \<Rightarrow> string" where
  "lowerFrom afterCased [] = []"
| "lowerFrom afterCased [c] = [asciiToLower c]"
| "lowerFrom afterCased (c # d # cs) =
     (if c = CHR 0xCE \<and> d = CHR 0xA3
      then (if afterCased \<and> \<not> casedAhead cs then [CHR 0xCF, CHR 0x82]
            else [CHR 0xCF, CHR 0x83]) @ lowerFrom True cs
      else if c = CHR 0xCF \<and> (d = CHR 0x83 \<or> d = CHR 0x82)
      then c # d # lowerFrom True cs
      else asciiToLower c # lowerFrom (isAsciiLetter c) (d # cs))"

definition toLowerCaseSigma :: "string \<Rightarrow> string" where
  "toLowerCaseSigma s = lowerFrom False s"

datatype View = PhotosView | AlbumsView | FavoritesView

definition displayPhotosOf ::
  "(string \<Rightarrow> string) \<Rightarrow> View \<Rightarrow> string \<Rightarrow> Photo list \<Rightarrow> Photo list" where
  "displayPhotosOf toLowerCase currentView searchQuery photos =
     (if currentView = FavoritesView
      then filter (\<lambda>photo. isFavorite photo) (filteredPhotos toLowerCase searchQuery photos)
      else filteredPhotos toLowerCase searchQuery photos)"

definition handlePhotoUpload :: "Photo list \<Rightarrow> Photo list \<Rightarrow> Photo list" where
  "handlePhotoUpload newPhotos prev = prev @ newPhotos"

definition toggleFavorite :: "string \<Rightarrow> Photo list \<Rightarrow> Photo list" where
  "toggleFavorite photoId prev =
     map (\<lambda>photo. if idP photo = photoId then photo\<lparr>isFavorite := \<not> isFavorite photo\<rparr>
                   else photo) prev"

section \<open>Grouping by date (PhotoGrid)\<close>

text \<open>
  The accumulator of the \<open>reduce\<close> is an object literal \<open>{}\<close>: its own properties are an
  association list in creation order, and a key it does not own is looked up in
  \<open>Object.prototype\<close>, whose properties are functions (and, for \<open>__proto__\<close>, the
  prototype itself): truthy values without a \<open>push\<close> method, so that \<open>groups[date].push\<close>
  throws a \<open>TypeError\<close> there.
\<close>

datatype js_error = TypeError

type_synonym groups = "(string \<times> Photo list) list"

definition objectPrototypeKeys :: "string list" where
  "objectPrototypeKeys =
     [''constructor'', ''__defineGetter__'', ''__defineSetter__'', ''hasOwnProperty'',
      ''__lookupGetter__'', ''__lookupSetter__'', ''isPrototypeOf'',
      ''propertyIsEnumerable'', ''toString'', ''valueOf'', ''__proto__'',
      ''toLocaleString'']"

fun pushTo :: "string \<Rightarrow> Photo \<Rightarrow> groups \<Rightarrow> groups" where
  "pushTo date photo [] = []"
| "pushTo date photo ((k, arr) # rest) =
     (if k = date then (k, arr @ [photo]) # rest else (k, arr) # pushTo date photo rest)"

text \<open>
  One step of the \<open>reduce\<close>. \<open>formatDate\<close> is imported from \<open>utils/format\<close>, which is not
  part of the sources at hand: it is a parameter.
\<close>

definition groupStep :: "(string \<Rightarrow> string) \<Rightarrow> groups \<Rightarrow> Photo \<Rightarrow> js_error + groups" where
  "groupStep formatDate groups photo =
     (let date = formatDate (uploadedAt photo) in
      case map_of groups date of
        Some arr \<Rightarrow> Inr (pushTo date photo groups)
      | None \<Rightarrow>
          if date \<in> set objectPrototypeKeys then Inl TypeError
          else Inr (pushTo date photo (groups @ [(date, [])])))"

fun reduceGroups :: "(string \<Rightarrow> string) \<Rightarrow> Photo list \<Rightarrow> groups \<Rightarrow> js_error + groups" where
  "reduceGroups formatDate [] groups = Inr groups"
| "reduceGroups formatDate (photo # rest) groups =
     (case groupStep formatDate groups photo of
        Inl e \<Rightarrow> Inl e
      | Inr groups' \<Rightarrow> reduceGroups formatDate rest groups')"

definition groupedPhotos :: "(string \<Rightarrow> string) \<Rightarrow> Photo list \<Rightarrow> js_error + groups" where
  "groupedPhotos formatDate photos = reduceGroups formatDate photos []"

text \<open>
  The state of the \<open>reduce\<close> after the photos \<open>seen\<close>: every label owns one key, the
  array under a label holds the photos seen with that label, in the order seen, and
  every photo seen is in one array.
\<close>

definition grouped_upto :: "(string \<Rightarrow> string) \<Rightarrow> groups \<Rightarrow> Photo list \<Rightarrow> bool" where
  "grouped_upto formatDate groups seen \<longleftrightarrow>
     distinct (map fst groups)
     \<and> (\<forall>d. map_of groups d =
            (if filter (\<lambda>p. formatDate (uploadedAt p) = d) seen = [] then None
             else Some (filter (\<lambda>p. formatDate (uploadedAt p) = d) seen)))
     \<and> mset (concat (map snd groups)) = mset seen"

text \<open>
  \<open>Object.entries\<close> lists the keys that are array indices first (canonical decimal
  numerals below \<open>2^32 - 1\<close>), in ascending numeric order, and then the other keys in
  creation order.
\<close>

definition isDigit :: "char \<Rightarrow> bool" where
  "isDigit c = (48 \<le> (of_char c :: nat) \<and> (of_char c :: nat) \<le> 57)"

definition numericValue :: "string \<Rightarrow> nat" where
  "numericValue k = foldl (\<lambda>n c. 10 * n + ((of_char c :: nat) - 48)) 0 k"

definition arrayIndex :: "string \<Rightarrow> nat option" where
  "arrayIndex k =
     (if k \<noteq> [] \<and> list_all isDigit k \<and> (k = ''0'' \<or> hd k \<noteq> CHR ''0'')
         \<and> numericValue k < 2 ^ 32 - 1
      then Some (numericValue k) else None)"

definition objectEntries :: "(string \<times> 'v) list \<Rightarrow> (string \<times> 'v) list" where
  "objectEntries obj =
     sort_key (\<lambda>e. the (arrayIndex (fst e))) (filter (\<lambda>e. arrayIndex (fst e) \<noteq> None) obj)
     @ filter (\<lambda>e. arrayIndex (fst e) = None) obj"

text \<open>
  The comparator \<open>([a], [b]) => new Date(b).getTime() - new Date(a).getTime()\<close>.
  \<open>getTime\<close> stands for \<open>new Date(label).getTime()\<close>: the milliseconds of the date the
  label parses to, \<open>None\<close> (\<open>NaN\<close>) for a label that is no date. A difference with \<open>NaN\<close>
  is \<open>NaN\<close>.
\<close>

definition compareByDateDesc ::
  "(string \<Rightarrow> int option) \<Rightarrow> string \<times> 'v \<Rightarrow> string \<times> 'v \<Rightarrow> int option" where
  "compareByDateDesc getTime a b =
     (case (getTime (fst b), getTime (fst a)) of
        (Some tb, Some ta) \<Rightarrow> Some (tb - ta)
      | _ \<Rightarrow> None)"

text \<open>
  \<open>Array.prototype.sort\<close> with a comparator is a stable sort that reads a \<open>NaN\<close> from
  the comparator as \<open>0\<close>. It is modelled as the stable insertion sort; for a comparator
  that is a consistent ordering, every stable sort gives the same result.
\<close>

definition sortCompare :: "('a \<Rightarrow> 'a \<Rightarrow> int option) \<Rightarrow> 'a \<Rightarrow> 'a \<Rightarrow> int" where
  "sortCompare comparefn x y = (case comparefn x y of None \<Rightarrow> 0 | Some v \<Rightarrow> v)"

fun insertSorted :: "('a \<Rightarrow> 'a \<Rightarrow> int option) \<Rightarrow> 'a \<Rightarrow> 'a list \<Rightarrow> 'a list" where
  "insertSorted comparefn x [] = [x]"
| "insertSorted comparefn x (y # ys) =
     (if sortCompare comparefn x y \<le> 0 then x # y # ys
      else y # insertSorted comparefn x ys)"

definition js_sort :: "('a \<Rightarrow> 'a \<Rightarrow> int option) \<Rightarrow> 'a list \<Rightarrow> 'a list" where
  "js_sort comparefn xs = foldr (insertSorted comparefn) xs []"

definition groupByDate ::
  "(string \<Rightarrow> string) \<Rightarrow> (string \<Rightarrow> int option) \<Rightarrow> Photo list \<Rightarrow> js_error + groups" where
  "groupByDate formatDate getTime photos =
     (case groupedPhotos formatDate photos of
        Inl e \<Rightarrow> Inl e
      | Inr groups \<Rightarrow> Inr (js_sort (compareByDateDesc getTime) (objectEntries groups)))"

text \<open>
  Modelled from the spec: \<open>formatDate\<close> of \<open>utils/format\<close> is not among the sources; the
  spec describes it as truncating \<open>uploadedAt\<close> to a calendar-day string. For concrete
  runs, \<open>dayLabel\<close> keeps the first ten characters of an ISO timestamp (\<open>YYYY-MM-DD\<close>),
  and \<open>dayNumber\<close> reads such a label as a number that grows with the date.
\<close>

definition dayLabel :: "string \<Rightarrow> string" where
  "dayLabel timestamp = take 10 timestamp"

definition dayNumber :: "string \<Rightarrow> int option" where
  "dayNumber label =
     (if length label = 10 \<and> list_all isDigit (take 4 label) \<and> label ! 4 = CHR ''-''
         \<and> list_all isDigit (take 2 (drop 5 label)) \<and> label ! 7 = CHR ''-''
         \<and> list_all isDigit (drop 8 label)
      then Some (int (numericValue (take 4 label)) * 10000
                 + int (numericValue (take 2 (drop 5 label))) * 100
                 + int (numericValue (drop 8 label)))
      else None)"

definition photoAt :: "string \<Rightarrow> string \<Rightarrow> Photo" where
  "photoAt i t = (mkPhoto i i)\<lparr>uploadedAt := t\<rparr>"

section \<open>Facts about findIndex\<close>

lemma findIndex_ge: "- 1 \<le> findIndex P xs"
  by (induction xs) (auto simp: Let_def)

lemma findIndex_absent: "(\<forall>x \<in> set xs. \<not> P x) \<Longrightarrow> findIndex P xs = - 1"
  by (induction xs) (auto simp: Let_def)

lemma findIndex_present:
  "\<exists>x \<in> set xs. P x \<Longrightarrow>
     0 \<le> findIndex P xs \<and> findIndex P xs < int (length xs) \<and> P (xs ! nat (findIndex P xs))"
proof (induction xs)
  case Nil
  then show ?case by simp
next
  case (Cons a xs)
  show ?case
  proof (cases "P a")
    case True
    then show ?thesis by simp
  next
    case False
    with Cons.prems have "\<exists>x \<in> set xs. P x" by auto
    from Cons.IH [OF this] have ih: "0 \<le> findIndex P xs" "findIndex P xs < int (length xs)"
      "P (xs ! nat (findIndex P xs))" by auto
    from ih(1) have "nat (findIndex P xs + 1) = Suc (nat (findIndex P xs))" by simp
    with False ih show ?thesis by (simp add: Let_def)
  qed
qed

lemma findIndex_distinct:
  "distinct (map f xs) \<Longrightarrow> j < length xs \<Longrightarrow> findIndex (\<lambda>p. f p = f (xs ! j)) xs = int j"
proof (induction xs arbitrary: j)
  case Nil
  then show ?case by simp
next
  case (Cons a xs)
  show ?case
  proof (cases j)
    case 0
    then show ?thesis by simp
  next
    case (Suc k)
    with Cons.prems have k: "k < length xs" and d: "distinct (map f xs)"
      and na: "f a \<notin> f ` set xs" by auto
    from k na have "f a \<noteq> f (xs ! k)" by (metis imageI nth_mem)
    moreover from Cons.IH [OF d k] have "findIndex (\<lambda>p. f p = f (xs ! k)) xs = int k" .
    ultimately show ?thesis using Suc by (simp add: Let_def)
  qed
qed

lemma onNext_present:
  assumes "idP sel \<in> idP ` set displayPhotos"
  shows "onNext displayPhotos sel =
           Obj (displayPhotos !
                ((nat (findIndex (\<lambda>p. idP p = idP sel) displayPhotos) + 1)
                 mod length displayPhotos))"
proof -
  let ?i = "findIndex (\<lambda>p. idP p = idP sel) displayPhotos"
  let ?n = "length displayPhotos"
  from assms have "\<exists>x \<in> set displayPhotos. idP x = idP sel" by auto
  from findIndex_present [OF this] have i: "0 \<le> ?i" "?i < int ?n" by auto
  then have n: "0 < ?n" by auto
  from i have "\<bar>?i + 1\<bar> mod \<bar>int ?n\<bar> = int ((nat ?i + 1) mod ?n)"
    by (simp add: zmod_int ac_simps)
  moreover from i have "sgn (?i + 1) = 1" by simp
  moreover from n have "(nat ?i + 1) mod ?n < ?n" by simp
  ultimately show ?thesis using n
    by (simp add: onNext_def js_rem_def Let_def)
qed

lemma onPrevious_present:
  assumes "idP sel \<in> idP ` set displayPhotos"
  shows "onPrevious displayPhotos sel =
           Obj (displayPhotos !
                (if findIndex (\<lambda>p. idP p = idP sel) displayPhotos = 0
                 then length displayPhotos - 1
                 else nat (findIndex (\<lambda>p. idP p = idP sel) displayPhotos) - 1))"
proof -
  let ?i = "findIndex (\<lambda>p. idP p = idP sel) displayPhotos"
  let ?n = "length displayPhotos"
  from assms have "\<exists>x \<in> set displayPhotos. idP x = idP sel" by auto
  from findIndex_present [OF this] have i: "0 \<le> ?i" "?i < int ?n" by auto
  then have n: "0 < ?n" by auto
  show ?thesis
  proof (cases "?i = 0")
    case True
    with n have "nat (int ?n - 1) = ?n - 1" by simp
    with True n show ?thesis by (simp add: onPrevious_def Let_def)
  next
    case False
    with i have "nat (?i - 1) = nat ?i - 1" "0 \<le> ?i - 1" "?i - 1 < int ?n" by auto
    with False show ?thesis by (simp add: onPrevious_def Let_def)
  qed
qed

section \<open>Viewer navigation: wrap-around and round trip\<close>

text \<open>
  Claim C1. For a non-empty display sequence and a selected photo whose id occurs in it,
  with \<open>i\<close> the index \<open>findIndex\<close> finds and \<open>n\<close> the length: \<open>onNext\<close> selects the
  photo at index \<open>(i + 1) mod n\<close>, \<open>onPrevious\<close> the one at \<open>n - 1\<close> when \<open>i = 0\<close> and at
  \<open>i - 1\<close> otherwise. When the ids of the sequence are pairwise different (the invariant
  of the data model), next followed by previous, and previous followed by next, come
  back to the id they started from; in a sequence of one photo each of the two keeps
  the current id, and keeps the selected photo itself when that is the photo of the
  sequence.
\<close>

theorem viewer_next_previous_wrap:
  assumes "displayPhotos \<noteq> []" and "idP sel \<in> idP ` set displayPhotos"
  shows "let n = length displayPhotos;
             i = nat (findIndex (\<lambda>p. idP p = idP sel) displayPhotos)
         in findIndex (\<lambda>p. idP p = idP sel) displayPhotos = int i \<and> i < n
          \<and> idP (displayPhotos ! i) = idP sel
          \<and> onNext displayPhotos sel = Obj (displayPhotos ! ((i + 1) mod n))
          \<and> onPrevious displayPhotos sel = Obj (displayPhotos ! (if i = 0 then n - 1 else i - 1))
          \<and> (distinct (map idP displayPhotos) \<longrightarrow>
                currentPhotoId (viewerPrevious displayPhotos (onNext displayPhotos sel))
                  = Some (idP sel)
              \<and> currentPhotoId (viewerNext displayPhotos (onPrevious displayPhotos sel))
                  = Some (idP sel))
          \<and> (n = 1 \<longrightarrow>
                currentPhotoId (onNext displayPhotos sel) = Some (idP sel)
              \<and> currentPhotoId (onPrevious displayPhotos sel) = Some (idP sel))
          \<and> (n = 1 \<and> sel \<in> set displayPhotos \<longrightarrow>
                onNext displayPhotos sel = Obj sel \<and> onPrevious displayPhotos sel = Obj sel)"
proof -
  let ?xs = displayPhotos
  let ?n = "length ?xs"
  let ?fi = "findIndex (\<lambda>p. idP p = idP sel) ?xs"
  let ?i = "nat ?fi"
  from assms(2) have ex: "\<exists>x \<in> set ?xs. idP x = idP sel" by auto
  from findIndex_present [OF ex]
  have fi: "0 \<le> ?fi" "?fi < int ?n" and at: "idP (?xs ! ?i) = idP sel" by auto
  then have i: "?fi = int ?i" "?i < ?n" by auto
  have nxt: "onNext ?xs sel = Obj (?xs ! ((?i + 1) mod ?n))"
    by (rule onNext_present [OF assms(2)])
  have prv: "onPrevious ?xs sel = Obj (?xs ! (if ?i = 0 then ?n - 1 else ?i - 1))"
    using onPrevious_present [OF assms(2)] fi by (auto split: if_splits)
  have round: "currentPhotoId (viewerPrevious ?xs (onNext ?xs sel)) = Some (idP sel)
             \<and> currentPhotoId (viewerNext ?xs (onPrevious ?xs sel)) = Some (idP sel)"
    if d: "distinct (map idP ?xs)"
  proof
    let ?j = "(?i + 1) mod ?n"
    from i(2) have "0 < ?n" by auto
    then have j: "?j < ?n" by simp
    have fj: "findIndex (\<lambda>p. idP p = idP (?xs ! ?j)) ?xs = int ?j"
      by (rule findIndex_distinct [OF d j])
    have mem: "idP (?xs ! ?j) \<in> idP ` set ?xs" using j by simp
    have ret: "(if ?j = 0 then ?n - 1 else ?j - 1) = ?i"
    proof (cases "?i + 1 = ?n")
      case True
      then show ?thesis by simp
    next
      case False
      with i(2) have "?j = ?i + 1" by simp
      then show ?thesis by simp
    qed
    have "onPrevious ?xs (?xs ! ?j) = Obj (?xs ! (if ?j = 0 then ?n - 1 else ?j - 1))"
      using onPrevious_present [OF mem] fj by (simp del: findIndex.simps)
    with ret at show "currentPhotoId (viewerPrevious ?xs (onNext ?xs sel)) = Some (idP sel)"
      by (simp add: nxt)
  next
    let ?k = "if ?i = 0 then ?n - 1 else ?i - 1"
    from i(2) have k: "?k < ?n" by auto
    have fk: "findIndex (\<lambda>p. idP p = idP (?xs ! ?k)) ?xs = int ?k"
      by (rule findIndex_distinct [OF d k])
    have mem: "idP (?xs ! ?k) \<in> idP ` set ?xs" using k by simp
    have forth: "(?k + 1) mod ?n = ?i"
      using i(2) by (cases "?i = 0") auto
    have "onNext ?xs (?xs ! ?k) = Obj (?xs ! ((?k + 1) mod ?n))"
      using onNext_present [OF mem] fk by (simp del: findIndex.simps)
    with forth at show "currentPhotoId (viewerNext ?xs (onPrevious ?xs sel)) = Some (idP sel)"
      by (simp add: prv)
  qed
  have single: "currentPhotoId (onNext ?xs sel) = Some (idP sel)
              \<and> currentPhotoId (onPrevious ?xs sel) = Some (idP sel)" if n1: "?n = 1"
  proof -
    from n1 i(2) have "?i = 0" by simp
    with n1 at nxt prv show ?thesis by simp
  qed
  have same: "onNext ?xs sel = Obj sel \<and> onPrevious ?xs sel = Obj sel"
    if n1: "?n = 1" and el: "sel \<in> set ?xs"
  proof -
    from n1 obtain x where x: "?xs = [x]" by (cases ?xs) auto
    with el have "?xs ! 0 = sel" by simp
    moreover from n1 i(2) have "?i = 0" by simp
    ultimately show ?thesis using n1 nxt prv by simp
  qed
  from i at nxt prv round single same show ?thesis
    unfolding Let_def by blast
qed

theorem viewer_next_previous_wrap_witness:
  "onNext [mkPhoto ''P1'' ''a'', mkPhoto ''P2'' ''b'', mkPhoto ''P3'' ''c''] (mkPhoto ''P2'' ''b'')
     = Obj (mkPhoto ''P3'' ''c'')
   \<and> onNext [mkPhoto ''P1'' ''a'', mkPhoto ''P2'' ''b'', mkPhoto ''P3'' ''c''] (mkPhoto ''P3'' ''c'')
     = Obj (mkPhoto ''P1'' ''a'')
   \<and> onPrevious [mkPhoto ''P1'' ''a'', mkPhoto ''P2'' ''b'', mkPhoto ''P3'' ''c''] (mkPhoto ''P1'' ''a'')
     = Obj (mkPhoto ''P3'' ''c'')
   \<and> currentPhotoId (viewerPrevious [mkPhoto ''P1'' ''a'', mkPhoto ''P2'' ''b'', mkPhoto ''P3'' ''c'']
        (onNext [mkPhoto ''P1'' ''a'', mkPhoto ''P2'' ''b'', mkPhoto ''P3'' ''c''] (mkPhoto ''P3'' ''c'')))
     = Some ''P3''
   \<and> currentPhotoId (onNext [mkPhoto ''P1'' ''a''] (mkPhoto ''P1'' ''a'')) = Some ''P1''
   \<and> currentPhotoId (onPrevious [mkPhoto ''P1'' ''a''] (mkPhoto ''P1'' ''a'')) = Some ''P1''
   \<and> onNext [mkPhoto ''P1'' ''a''] (mkPhoto ''P1'' ''a'') = Obj (mkPhoto ''P1'' ''a'')"
proof -
  let ?xs = "[mkPhoto ''P1'' ''a'', mkPhoto ''P2'' ''b'', mkPhoto ''P3'' ''c'']"
  have ne: "?xs \<noteq> []" "[mkPhoto ''P1'' ''a''] \<noteq> []" by simp_all
  have m1: "idP (mkPhoto ''P1'' ''a'') \<in> idP ` set ?xs"
    and m2: "idP (mkPhoto ''P2'' ''b'') \<in> idP ` set ?xs"
    and m3: "idP (mkPhoto ''P3'' ''c'') \<in> idP ` set ?xs"
    and m4: "idP (mkPhoto ''P1'' ''a'') \<in> idP ` set [mkPhoto ''P1'' ''a'']" by simp_all
  have d: "distinct (map idP ?xs)" by (simp add: mkPhoto_def)
  from viewer_next_previous_wrap [OF ne(1) m1] viewer_next_previous_wrap [OF ne(1) m2]
    viewer_next_previous_wrap [OF ne(1) m3] viewer_next_previous_wrap [OF ne(2) m4] d
  show ?thesis
    by (simp add: Let_def mkPhoto_def)
qed

text \<open>
  Claim C10. When the id of the selected photo does not occur in the non-empty display
  sequence, \<open>findIndex\<close> gives \<open>-1\<close>; \<open>onNext\<close> then selects the first photo of the
  sequence (index \<open>(-1 + 1) mod n = 0\<close>), and \<open>onPrevious\<close> reads index \<open>-2\<close>, outside
  the array, so that the selected photo becomes \<open>undefined\<close>, a falsy value. Neither
  handler checks for the \<open>-1\<close>.
\<close>

theorem absent_current_photo:
  assumes "displayPhotos \<noteq> []" and "idP sel \<notin> idP ` set displayPhotos"
  shows "findIndex (\<lambda>p. idP p = idP sel) displayPhotos = - 1
       \<and> onNext displayPhotos sel = Obj (displayPhotos ! 0)
       \<and> onPrevious displayPhotos sel = Undefined
       \<and> \<not> truthy (onPrevious displayPhotos sel)"
proof -
  from assms(2) have "\<forall>x \<in> set displayPhotos. \<not> idP x = idP sel"
    by (metis imageI)
  from findIndex_absent [OF this]
  have fi: "findIndex (\<lambda>p. idP p = idP sel) displayPhotos = - 1" .
  from assms(1) have n: "0 < length displayPhotos" by simp
  from fi n show ?thesis
    by (simp add: onNext_def onPrevious_def js_rem_def Let_def)
qed

theorem absent_current_photo_witness:
  "onNext [mkPhoto ''P1'' ''a'', mkPhoto ''P2'' ''b''] (mkPhoto ''P9'' ''z'') = Obj (mkPhoto ''P1'' ''a'')
   \<and> onPrevious [mkPhoto ''P1'' ''a'', mkPhoto ''P2'' ''b''] (mkPhoto ''P9'' ''z'') = Undefined"
proof -
  have ne: "[mkPhoto ''P1'' ''a'', mkPhoto ''P2'' ''b''] \<noteq> []" by simp
  have nm: "idP (mkPhoto ''P9'' ''z'') \<notin> idP ` set [mkPhoto ''P1'' ''a'', mkPhoto ''P2'' ''b'']"
    by (simp add: mkPhoto_def)
  from absent_current_photo [OF ne nm] show ?thesis by simp
qed

section \<open>Search\<close>

lemma includesStr_iff: "includesStr s q \<longleftrightarrow> (\<exists>pre suf. s = pre @ q @ suf)"
proof (induction s)
  case Nil
  then show ?case by simp
next
  case (Cons c s)
  have "(\<exists>pre suf. c # s = pre @ q @ suf) \<longleftrightarrow>
          (\<exists>suf. c # s = q @ suf) \<or> (\<exists>pre suf. s = pre @ q @ suf)"
    (is "?L \<longleftrightarrow> ?A \<or> ?B")
  proof
    assume ?L
    then obtain pre suf where e: "c # s = pre @ q @ suf" by blast
    show "?A \<or> ?B"
    proof (cases pre)
      case Nil
      with e show ?thesis by auto
    next
      case (Cons a pre')
      with e have "s = pre' @ q @ suf" by simp
      then show ?thesis by blast
    qed
  next
    assume "?A \<or> ?B"
    then show ?L
    proof
      assume ?A
      then obtain suf where "c # s = [] @ q @ suf" by auto
      then show ?L by blast
    next
      assume ?B
      then obtain pre suf where "s = pre @ q @ suf" by blast
      then have "c # s = (c # pre) @ q @ suf" by simp
      then show ?L by blast
    qed
  qed
  with Cons.IH show ?case by (simp add: prefix_def)
qed

lemma photo_filter_pred:
  "(includesStr (toLowerCase (name photo)) (toLowerCase q) \<or>
    list_ex (\<lambda>tag. includesStr (toLowerCase tag) (toLowerCase q)) (tags photo))
   = matchesLowered toLowerCase q photo"
  by (simp add: matchesLowered_def containsLowered_def includesStr_iff list_ex_iff)

lemma filteredPhotos_lowered:
  "filteredPhotos toLowerCase q photos = filter (matchesLowered toLowerCase q) photos"
  by (simp add: filteredPhotos_def photo_filter_pred)

lemma of_char_asciiToLower:
  "(of_char (asciiToLower c) :: nat) =
     (if 65 \<le> (of_char c :: nat) \<and> (of_char c :: nat) \<le> 90 then of_char c + 32 else of_char c)"
  by (simp add: asciiToLower_def Let_def)

lemma asciiToLower_eq_iff: "asciiToLower a = asciiToLower b \<longleftrightarrow> sameIgnoringCase a b"
proof -
  have "asciiToLower a = asciiToLower b
          \<longleftrightarrow> (of_char (asciiToLower a) :: nat) = of_char (asciiToLower b)"
    by simp
  also have "\<dots> \<longleftrightarrow> ((of_char a :: nat) = of_char b
        \<or> (isAsciiCapital a \<and> (of_char b :: nat) = of_char a + 32)
        \<or> (isAsciiCapital b \<and> (of_char a :: nat) = of_char b + 32))"
    unfolding of_char_asciiToLower isAsciiCapital_def by auto
  also have "\<dots> \<longleftrightarrow> sameIgnoringCase a b"
    by (simp add: sameIgnoringCase_def)
  finally show ?thesis .
qed

lemma map_eq_iff_list_all2:
  "map f xs = map f ys \<longleftrightarrow> list_all2 (\<lambda>a b. f a = f b) xs ys"
proof (induction xs arbitrary: ys)
  case Nil
  then show ?case by simp
next
  case (Cons x xs)
  then show ?case by (cases ys) auto
qed

lemma map_contains_iff:
  "(\<exists>pre suf. map f s = pre @ map f q @ suf)
     \<longleftrightarrow> (\<exists>pre mid suf. s = pre @ mid @ suf \<and> map f mid = map f q)"
proof
  assume "\<exists>pre suf. map f s = pre @ map f q @ suf"
  then obtain pre suf where "map f s = pre @ map f q @ suf" by blast
  then obtain us vs where s: "s = us @ vs" and "map f vs = map f q @ suf"
    by (metis map_eq_append_conv)
  then obtain mid ws where "vs = mid @ ws" and "map f mid = map f q"
    by (metis map_eq_append_conv)
  with s show "\<exists>pre mid suf. s = pre @ mid @ suf \<and> map f mid = map f q" by blast
next
  assume "\<exists>pre mid suf. s = pre @ mid @ suf \<and> map f mid = map f q"
  then obtain pre mid suf where "s = pre @ mid @ suf" and "map f mid = map f q" by blast
  then have "map f s = map f pre @ map f q @ map f suf" by simp
  then show "\<exists>pre suf. map f s = pre @ map f q @ suf" by blast
qed

lemma containsLowered_ascii:
  assumes "toLowerCase s = map asciiToLower s" and "toLowerCase q = map asciiToLower q"
  shows "containsLowered toLowerCase s q \<longleftrightarrow> containsIgnoringCase s q"
proof -
  have "list_all2 (\<lambda>a b. asciiToLower a = asciiToLower b) = list_all2 sameIgnoringCase"
    by (simp add: asciiToLower_eq_iff)
  then show ?thesis
    unfolding containsLowered_def containsIgnoringCase_def assms
    by (simp add: map_contains_iff map_eq_iff_list_all2)
qed

lemma lowerFrom_ascii: "isAscii s \<Longrightarrow> lowerFrom b s = map asciiToLower s"
proof (induction b s rule: lowerFrom.induct)
  case (1 afterCased)
  then show ?case by simp
next
  case (2 afterCased c)
  then show ?case by simp
next
  case (3 afterCased c d cs)
  from "3.prems" have c: "(of_char c :: nat) < 128" and rest: "isAscii (d # cs)"
    by (simp_all add: isAscii_def)
  from c have ne: "c \<noteq> CHR 0xCE" "c \<noteq> CHR 0xCF" by auto
  with "3.IH"(3) rest show ?case by simp
qed


lemma toLowerCaseSigma_ascii: "isAscii s \<Longrightarrow> toLowerCaseSigma s = map asciiToLower s"
  by (simp add: toLowerCaseSigma_def lowerFrom_ascii)

lemma matchesLowered_ascii:
  assumes low: "\<forall>s. isAscii s \<longrightarrow> toLowerCase s = map asciiToLower s"
    and q: "isAscii q" and n: "isAscii (name p)" and t: "\<forall>t \<in> set (tags p). isAscii t"
  shows "matchesLowered toLowerCase q p \<longleftrightarrow> matchesQuery q p"
proof -
  from low q have lq: "toLowerCase q = map asciiToLower q" by simp
  from low n have "toLowerCase (name p) = map asciiToLower (name p)" by simp
  from containsLowered_ascii [OF this lq]
  have a: "containsLowered toLowerCase (name p) q \<longleftrightarrow> containsIgnoringCase (name p) q" .
  have b: "containsLowered toLowerCase tag q \<longleftrightarrow> containsIgnoringCase tag q"
    if "tag \<in> set (tags p)" for tag
  proof -
    from that t low have "toLowerCase tag = map asciiToLower tag" by simp
    from containsLowered_ascii [OF this lq] show ?thesis .
  qed
  from a b show ?thesis by (auto simp: matchesLowered_def matchesQuery_def)
qed

text \<open>
  Claim C8, as the code has it. For every collection and every query, \<open>filteredPhotos\<close>
  keeps exactly the photos whose lower-cased name, or one of whose lower-cased tags,
  contains the lower-cased query as a substring, whatever \<open>toLowerCase\<close> does; the empty
  query keeps every photo; and the photos kept stand in the order of the collection.
  On ASCII names, tags and queries, where lower-casing replaces each capital by its
  small letter, these are exactly the photos whose name, or one of whose tags, contains
  the query as a case-insensitive substring.
\<close>

theorem filter_matches_lowered_name_or_tag:
  "filteredPhotos toLowerCase searchQuery photos
     = filter (matchesLowered toLowerCase searchQuery) photos
   \<and> (toLowerCase [] = [] \<longrightarrow> filteredPhotos toLowerCase [] photos = photos)
   \<and> subseq (filteredPhotos toLowerCase searchQuery photos) photos
   \<and> ((\<forall>s. isAscii s \<longrightarrow> toLowerCase s = map asciiToLower s) \<and> isAscii searchQuery
        \<and> (\<forall>p \<in> set photos. isAscii (name p) \<and> (\<forall>t \<in> set (tags p). isAscii t))
      \<longrightarrow> filteredPhotos toLowerCase searchQuery photos
            = filter (matchesQuery searchQuery) photos)"
proof -
  have a: "filteredPhotos toLowerCase searchQuery photos
      = filter (matchesLowered toLowerCase searchQuery) photos"
    by (rule filteredPhotos_lowered)
  have b: "filteredPhotos toLowerCase [] photos = photos" if e: "toLowerCase [] = []"
  proof -
    have "containsLowered toLowerCase s []" for s
      unfolding containsLowered_def e
      by (rule exI [of _ "[]"], rule exI [of _ "toLowerCase s"]) simp
    then have "matchesLowered toLowerCase [] p" for p
      by (simp add: matchesLowered_def)
    then show ?thesis by (simp add: filteredPhotos_lowered)
  qed
  have c: "subseq (filteredPhotos toLowerCase searchQuery photos) photos"
    by (simp add: filteredPhotos_def)
  have d: "filteredPhotos toLowerCase searchQuery photos = filter (matchesQuery searchQuery) photos"
    if low: "\<forall>s. isAscii s \<longrightarrow> toLowerCase s = map asciiToLower s"
      and q: "isAscii searchQuery"
      and ps: "\<forall>p \<in> set photos. isAscii (name p) \<and> (\<forall>t \<in> set (tags p). isAscii t)"
  proof -
    have "matchesLowered toLowerCase searchQuery p \<longleftrightarrow> matchesQuery searchQuery p"
      if "p \<in> set photos" for p
      using matchesLowered_ascii [OF low q] ps that by blast
    then have "filter (matchesLowered toLowerCase searchQuery) photos
        = filter (matchesQuery searchQuery) photos"
      by (intro filter_cong) simp_all
    with a show ?thesis by simp
  qed
  from a b c d show ?thesis by blast
qed

theorem filter_matches_lowered_name_or_tag_witness:
  "filteredPhotos toLowerCaseSigma ''BEA''
     [(mkPhoto ''P1'' ''Beach.png''), (mkPhoto ''P2'' ''cat.png''),
      (mkPhoto ''P3'' ''dog.png'')\<lparr>tags := [''pet'', ''At The Beach'']\<rparr>]
   = [(mkPhoto ''P1'' ''Beach.png''),
      (mkPhoto ''P3'' ''dog.png'')\<lparr>tags := [''pet'', ''At The Beach'']\<rparr>]
   \<and> matchesQuery ''BEA'' (mkPhoto ''P1'' ''Beach.png'')
   \<and> \<not> matchesQuery ''BEA'' (mkPhoto ''P2'' ''cat.png'')
   \<and> filteredPhotos toLowerCaseSigma [] [mkPhoto ''P1'' ''Beach.png'', mkPhoto ''P2'' ''cat.png'']
     = [mkPhoto ''P1'' ''Beach.png'', mkPhoto ''P2'' ''cat.png'']"
proof -
  let ?ps = "[(mkPhoto ''P1'' ''Beach.png''), (mkPhoto ''P2'' ''cat.png''),
      (mkPhoto ''P3'' ''dog.png'')\<lparr>tags := [''pet'', ''At The Beach'']\<rparr>]"
  have low: "\<forall>s. isAscii s \<longrightarrow> toLowerCaseSigma s = map asciiToLower s"
    by (simp add: toLowerCaseSigma_ascii)
  have q: "isAscii ''BEA''" by code_simp
  have ps: "\<forall>p \<in> set ?ps. isAscii (name p) \<and> (\<forall>t \<in> set (tags p). isAscii t)"
    by (simp add: mkPhoto_def isAscii_def)
  have nil: "toLowerCaseSigma [] = []" by (simp add: toLowerCaseSigma_def)
  have e: "filteredPhotos toLowerCaseSigma ''BEA'' ?ps = [(mkPhoto ''P1'' ''Beach.png''),
      (mkPhoto ''P3'' ''dog.png'')\<lparr>tags := [''pet'', ''At The Beach'']\<rparr>]"
    by code_simp
  from filter_matches_lowered_name_or_tag [of toLowerCaseSigma "''BEA''" ?ps] low q ps
  have "filteredPhotos toLowerCaseSigma ''BEA'' ?ps = filter (matchesQuery ''BEA'') ?ps" by blast
  then have "filter (matchesQuery ''BEA'') ?ps = filteredPhotos toLowerCaseSigma ''BEA'' ?ps"
    by (rule sym)
  from this e have "filter (matchesQuery ''BEA'') ?ps = [(mkPhoto ''P1'' ''Beach.png''),
      (mkPhoto ''P3'' ''dog.png'')\<lparr>tags := [''pet'', ''At The Beach'']\<rparr>]"
    by (rule trans)
  then have m: "matchesQuery ''BEA'' (mkPhoto ''P1'' ''Beach.png'')
     \<and> \<not> matchesQuery ''BEA'' (mkPhoto ''P2'' ''cat.png'')"
    by (simp split: if_splits)
  from filter_matches_lowered_name_or_tag [of toLowerCaseSigma "[]"
      "[mkPhoto ''P1'' ''Beach.png'', mkPhoto ''P2'' ''cat.png'']"] nil
  have all: "filteredPhotos toLowerCaseSigma [] [mkPhoto ''P1'' ''Beach.png'', mkPhoto ''P2'' ''cat.png'']
     = [mkPhoto ''P1'' ''Beach.png'', mkPhoto ''P2'' ''cat.png'']" by blast
  from e m all show ?thesis by simp
qed

text \<open>
  Claim C8 as stated asks for every photo whose name contains the query as a
  case-insensitive substring. The name made of the letter \<open>A\<close> and a capital sigma
  contains the query made of a capital sigma as it stands; lower-cased, the name ends in
  the final small sigma and the query is the small sigma, so the filter leaves the
  photo out.
\<close>

theorem final_sigma_name_not_found:
  "filteredPhotos toLowerCaseSigma [CHR 0xCE, CHR 0xA3]
     [mkPhoto ''P1'' [CHR 0x41, CHR 0xCE, CHR 0xA3]] = []
   \<and> toLowerCaseSigma [CHR 0x41, CHR 0xCE, CHR 0xA3] = [CHR 0x61, CHR 0xCF, CHR 0x82]
   \<and> toLowerCaseSigma [CHR 0xCE, CHR 0xA3] = [CHR 0xCF, CHR 0x83]
   \<and> matchesQuery [CHR 0xCE, CHR 0xA3] (mkPhoto ''P1'' [CHR 0x41, CHR 0xCE, CHR 0xA3])"
proof -
  have a: "filteredPhotos toLowerCaseSigma [CHR 0xCE, CHR 0xA3]
     [mkPhoto ''P1'' [CHR 0x41, CHR 0xCE, CHR 0xA3]] = []"
    by code_simp
  have b: "toLowerCaseSigma [CHR 0x41, CHR 0xCE, CHR 0xA3] = [CHR 0x61, CHR 0xCF, CHR 0x82]"
    by code_simp
  have c: "toLowerCaseSigma [CHR 0xCE, CHR 0xA3] = [CHR 0xCF, CHR 0x83]"
    by code_simp
  have "[CHR 0x41, CHR 0xCE, CHR 0xA3] = [CHR 0x41] @ [CHR 0xCE, CHR 0xA3] @ []
      \<and> list_all2 sameIgnoringCase [CHR 0xCE, CHR 0xA3] [CHR 0xCE, CHR 0xA3]"
    by (simp add: sameIgnoringCase_def)
  then have "containsIgnoringCase [CHR 0x41, CHR 0xCE, CHR 0xA3] [CHR 0xCE, CHR 0xA3]"
    unfolding containsIgnoringCase_def by blast
  then have d: "matchesQuery [CHR 0xCE, CHR 0xA3] (mkPhoto ''P1'' [CHR 0x41, CHR 0xCE, CHR 0xA3])"
    by (simp add: matchesQuery_def mkPhoto_def)
  from a b c d show ?thesis by simp
qed

section \<open>Favorites\<close>

text \<open>
  Claim C9. \<open>toggleFavorite\<close> flips \<open>isFavorite\<close> in the records whose id is the given one
  and leaves every other field and every other record as it was; with an id that no
  record has, the collection is unchanged; applied twice with the same id it gives back
  the collection it started from.
\<close>

theorem toggleFavorite_involution:
  "length (toggleFavorite photoId photos) = length photos
   \<and> (\<forall>k < length photos.
        toggleFavorite photoId photos ! k =
          (if idP (photos ! k) = photoId
           then (photos ! k)\<lparr>isFavorite := \<not> isFavorite (photos ! k)\<rparr>
           else photos ! k))
   \<and> (photoId \<notin> idP ` set photos \<longrightarrow> toggleFavorite photoId photos = photos)
   \<and> toggleFavorite photoId (toggleFavorite photoId photos) = photos"
proof -
  have "toggleFavorite photoId photos = photos" if "photoId \<notin> idP ` set photos"
    unfolding toggleFavorite_def using that by (induction photos) auto
  moreover have "toggleFavorite photoId (toggleFavorite photoId photos) = photos"
    unfolding toggleFavorite_def by (induction photos) auto
  ultimately show ?thesis by (simp add: toggleFavorite_def)
qed

theorem toggleFavorite_involution_witness:
  "toggleFavorite ''P2'' [mkPhoto ''P1'' ''a'', mkPhoto ''P2'' ''b'']
     = [mkPhoto ''P1'' ''a'', (mkPhoto ''P2'' ''b'')\<lparr>isFavorite := True\<rparr>]
   \<and> toggleFavorite ''P9'' [mkPhoto ''P1'' ''a'', mkPhoto ''P2'' ''b'']
     = [mkPhoto ''P1'' ''a'', mkPhoto ''P2'' ''b'']
   \<and> toggleFavorite ''P2'' (toggleFavorite ''P2'' [mkPhoto ''P1'' ''a'', mkPhoto ''P2'' ''b''])
     = [mkPhoto ''P1'' ''a'', mkPhoto ''P2'' ''b'']"
proof -
  let ?ps = "[mkPhoto ''P1'' ''a'', mkPhoto ''P2'' ''b'']"
  have nm: "''P9'' \<notin> idP ` set ?ps" by (simp add: mkPhoto_def)
  from toggleFavorite_involution [of "''P9''" ?ps] nm
  have "toggleFavorite ''P9'' ?ps = ?ps" by blast
  moreover from toggleFavorite_involution [of "''P2''" ?ps]
  have "toggleFavorite ''P2'' (toggleFavorite ''P2'' ?ps) = ?ps" by blast
  moreover have "toggleFavorite ''P2'' ?ps
      = [mkPhoto ''P1'' ''a'', (mkPhoto ''P2'' ''b'')\<lparr>isFavorite := True\<rparr>]"
    by (simp add: toggleFavorite_def mkPhoto_def)
  ultimately show ?thesis by simp
qed

section \<open>Zoom\<close>

lemma zoom_step_range:
  assumes "mono rnd" "rnd 0.5 = 0.5" "rnd 5 = 5" "0.5 \<le> zoom v" "zoom v \<le> 5"
  shows "0.5 \<le> zoom (pressZoom rnd v b) \<and> zoom (pressZoom rnd v b) \<le> 5"
proof (cases b)
  case ZoomIn
  from assms(4) have "0.5 \<le> zoom v * 1.5" by simp
  with assms(1) have "rnd 0.5 \<le> rnd (zoom v * 1.5)" by (rule monoD)
  with assms(2) ZoomIn show ?thesis by (simp add: handleZoomIn_def)
next
  case ZoomOut
  from assms(5) have "zoom v / 1.5 \<le> 5" by simp
  with assms(1) have "rnd (zoom v / 1.5) \<le> rnd 5" by (rule monoD)
  with assms(3) ZoomOut show ?thesis by (simp add: handleZoomOut_def)
qed

lemma zoom_run_range:
  assumes "mono rnd" "rnd 0.5 = 0.5" "rnd 5 = 5" "0.5 \<le> zoom v" "zoom v \<le> 5"
  shows "0.5 \<le> zoom (foldl (pressZoom rnd) v presses) \<and> zoom (foldl (pressZoom rnd) v presses) \<le> 5"
  using assms(4,5)
proof (induction presses arbitrary: v)
  case Nil
  then show ?case by simp
next
  case (Cons b presses)
  from zoom_step_range [OF assms(1-3) Cons.prems]
  have "0.5 \<le> zoom (pressZoom rnd v b)" "zoom (pressZoom rnd v b) \<le> 5" by auto
  from Cons.IH [OF this] show ?case by simp
qed

text \<open>
  Claim C3. \<open>handleZoomIn\<close> sets the zoom to \<open>min (zoom * 1.5) 5\<close> and \<open>handleZoomOut\<close> to
  \<open>max (zoom / 1.5) 0.5\<close>, the product and the quotient rounded by \<open>rnd\<close> (not at all
  in exact arithmetic). For a rounding that is monotone and leaves \<open>0.5\<close> and \<open>5\<close> as they
  are, as rounding to the nearest floating-point number does, the zoom of a viewer
  that starts at \<open>1\<close> lies in \<open>[0.5, 5]\<close> after any sequence of the two buttons.
\<close>

theorem zoom_stays_in_range:
  assumes "mono rnd" and "rnd 0.5 = 0.5" and "rnd 5 = 5"
  shows "zoom (handleZoomIn rnd v) = min (rnd (zoom v * 1.5)) 5
       \<and> zoom (handleZoomOut rnd v) = max (rnd (zoom v / 1.5)) 0.5
       \<and> zoom (handleZoomIn (\<lambda>x. x) v) = min (zoom v * 1.5) 5
       \<and> zoom (handleZoomOut (\<lambda>x. x) v) = max (zoom v / 1.5) 0.5
       \<and> 0.5 \<le> zoom (foldl (pressZoom rnd) initialViewerState presses)
       \<and> zoom (foldl (pressZoom rnd) initialViewerState presses) \<le> 5"
proof -
  have "0.5 \<le> zoom initialViewerState" "zoom initialViewerState \<le> 5"
    by (simp_all add: initialViewerState_def)
  from zoom_run_range [OF assms this] show ?thesis
    by (simp add: handleZoomIn_def handleZoomOut_def)
qed

theorem zoom_stays_in_range_witness:
  "zoom (foldl (pressZoom (\<lambda>x. x)) initialViewerState [ZoomIn, ZoomIn, ZoomIn, ZoomIn, ZoomOut]) = 10 / 3
   \<and> zoom (foldl (pressZoom (\<lambda>x. x)) initialViewerState [ZoomOut, ZoomOut, ZoomIn]) = 3 / 4
   \<and> 0.5 \<le> zoom (foldl (pressZoom (\<lambda>x. x)) initialViewerState [ZoomIn, ZoomIn, ZoomIn, ZoomIn, ZoomOut])
   \<and> zoom (foldl (pressZoom (\<lambda>x. x)) initialViewerState [ZoomIn, ZoomIn, ZoomIn, ZoomIn, ZoomOut]) \<le> 5"
proof -
  have m: "mono (\<lambda>x::real. x)" by (simp add: mono_def)
  have a: "(\<lambda>x::real. x) 0.5 = 0.5" and b: "(\<lambda>x::real. x) 5 = 5" by simp_all
  from zoom_stays_in_range [OF m a b, of initialViewerState "[ZoomIn, ZoomIn, ZoomIn, ZoomIn, ZoomOut]"]
  show ?thesis
    by (simp add: handleZoomIn_def handleZoomOut_def initialViewerState_def)
qed

section \<open>Viewer navigation: zoom and pan\<close>

lemma setSelectedPhoto_mounted:
  "selectedPhoto s = Obj p \<Longrightarrow> viewer s = Some v \<Longrightarrow>
     setSelectedPhoto (Obj q) s
       = \<lparr>selectedPhoto = Obj q, viewer = Some (resetEffect (idP p) (idP q) v)\<rparr>"
  by simp

lemma next_index_differs:
  assumes "i < n" and "1 < n"
  shows "(i + 1) mod n \<noteq> i" and "(if i = 0 then n - 1 else i - 1) \<noteq> (i::nat)"
proof -
  show "(i + 1) mod n \<noteq> i"
  proof (cases "i + 1 = n")
    case True
    with assms show ?thesis by simp
  next
    case False
    with assms have "(i + 1) mod n = i + 1" by simp
    then show ?thesis by simp
  qed
  from assms show "(if i = 0 then n - 1 else i - 1) \<noteq> i" by auto
qed

text \<open>
  Claim C2, as the code has it. Next and previous set the zoom to \<open>1\<close> and the pan to
  \<open>(0, 0)\<close> exactly when the photo they select has another id than the current one: the
  reset is an effect keyed on \<open>photo.id\<close>. So they reset in every sequence of more than
  one photo with pairwise different ids that holds the current photo; in a sequence of
  exactly one photo they select the same id again, and zoom and pan stay as they were.
\<close>

theorem next_previous_reset_on_id_change:
  assumes "selectedPhoto s = Obj p" and "viewer s = Some v"
  shows "(\<forall>q. onNext displayPhotos p = Obj q \<longrightarrow>
            selectedPhoto (pressNext displayPhotos s) = Obj q
          \<and> viewer (pressNext displayPhotos s)
              = Some (if idP q = idP p then v else v\<lparr>zoom := 1, position := (0, 0)\<rparr>))
       \<and> (\<forall>q. onPrevious displayPhotos p = Obj q \<longrightarrow>
            selectedPhoto (pressPrevious displayPhotos s) = Obj q
          \<and> viewer (pressPrevious displayPhotos s)
              = Some (if idP q = idP p then v else v\<lparr>zoom := 1, position := (0, 0)\<rparr>))
       \<and> (idP p \<in> idP ` set displayPhotos \<and> distinct (map idP displayPhotos)
            \<and> 1 < length displayPhotos \<longrightarrow>
            viewer (pressNext displayPhotos s) = Some (v\<lparr>zoom := 1, position := (0, 0)\<rparr>)
          \<and> viewer (pressPrevious displayPhotos s) = Some (v\<lparr>zoom := 1, position := (0, 0)\<rparr>))
       \<and> (idP p \<in> idP ` set displayPhotos \<and> length displayPhotos = 1 \<longrightarrow>
            viewer (pressNext displayPhotos s) = Some v
          \<and> viewer (pressPrevious displayPhotos s) = Some v)"
proof -
  let ?xs = displayPhotos
  let ?n = "length ?xs"
  let ?reset = "v\<lparr>zoom := 1, position := (0, 0)\<rparr>"
  have nx: "selectedPhoto (pressNext ?xs s) = Obj q
          \<and> viewer (pressNext ?xs s) = Some (if idP q = idP p then v else ?reset)"
    if "onNext ?xs p = Obj q" for q
    using that assms by (simp add: pressNext_def resetEffect_def)
  have pv: "selectedPhoto (pressPrevious ?xs s) = Obj q
          \<and> viewer (pressPrevious ?xs s) = Some (if idP q = idP p then v else ?reset)"
    if "onPrevious ?xs p = Obj q" for q
    using that assms by (simp add: pressPrevious_def resetEffect_def)
  have pos: "0 \<le> findIndex (\<lambda>x. idP x = idP p) ?xs
           \<and> findIndex (\<lambda>x. idP x = idP p) ?xs < int ?n
           \<and> idP (?xs ! nat (findIndex (\<lambda>x. idP x = idP p) ?xs)) = idP p"
    if "idP p \<in> idP ` set ?xs"
  proof -
    from that have "\<exists>x \<in> set ?xs. idP x = idP p" by auto
    from findIndex_present [OF this] show ?thesis by simp
  qed
  have many: "viewer (pressNext ?xs s) = Some ?reset \<and> viewer (pressPrevious ?xs s) = Some ?reset"
    if mem: "idP p \<in> idP ` set ?xs" and d: "distinct (map idP ?xs)" and n: "1 < ?n"
  proof -
    let ?i = "nat (findIndex (\<lambda>x. idP x = idP p) ?xs)"
    let ?j = "(?i + 1) mod ?n"
    let ?k = "if ?i = 0 then ?n - 1 else ?i - 1"
    from pos [OF mem] have i: "?i < ?n" and at: "idP (?xs ! ?i) = idP p" by auto
    from n have "0 < ?n" by linarith
    then have j: "?j < ?n" by (rule mod_less_divisor)
    from i have k: "?k < ?n" by auto
    from next_index_differs [OF i n] have ne: "?j \<noteq> ?i" "?k \<noteq> ?i" by auto
    from d i j ne(1) have "map idP ?xs ! ?j \<noteq> map idP ?xs ! ?i"
      by (simp add: nth_eq_iff_index_eq del: nth_map)
    with i j at have dj: "idP (?xs ! ?j) \<noteq> idP p" by simp
    from d i k ne(2) have "map idP ?xs ! ?k \<noteq> map idP ?xs ! ?i"
      by (simp add: nth_eq_iff_index_eq del: nth_map)
    with i k at have dk: "idP (?xs ! ?k) \<noteq> idP p" by simp
    have "onNext ?xs p = Obj (?xs ! ?j)" by (rule onNext_present [OF mem])
    from nx [OF this] dj have a: "viewer (pressNext ?xs s) = Some ?reset" by simp
    have "onPrevious ?xs p = Obj (?xs ! ?k)"
      using onPrevious_present [OF mem] pos [OF mem] by (auto split: if_splits)
    from pv [OF this] dk have b: "viewer (pressPrevious ?xs s) = Some ?reset" by simp
    from a b show ?thesis by simp
  qed
  have single: "viewer (pressNext ?xs s) = Some v \<and> viewer (pressPrevious ?xs s) = Some v"
    if mem: "idP p \<in> idP ` set ?xs" and n: "?n = 1"
  proof -
    let ?i = "nat (findIndex (\<lambda>x. idP x = idP p) ?xs)"
    from pos [OF mem] n have i: "?i = 0" and fi: "findIndex (\<lambda>x. idP x = idP p) ?xs = 0"
      and at: "idP (?xs ! ?i) = idP p" by auto
    have "onNext ?xs p = Obj (?xs ! 0)" using onNext_present [OF mem] i n by simp
    from nx [OF this] at i have a: "viewer (pressNext ?xs s) = Some v" by simp
    have "onPrevious ?xs p = Obj (?xs ! 0)" using onPrevious_present [OF mem] fi n by simp
    from pv [OF this] at i have b: "viewer (pressPrevious ?xs s) = Some v" by simp
    from a b show ?thesis by simp
  qed
  from nx pv many single show ?thesis by blast
qed


theorem next_previous_reset_on_id_change_witness:
  "viewer (pressNext [mkPhoto ''P1'' ''a'', mkPhoto ''P2'' ''b'', mkPhoto ''P3'' ''c'']
      \<lparr>selectedPhoto = Obj (mkPhoto ''P3'' ''c''),
       viewer = Some (initialViewerState\<lparr>zoom := 3 / 2, position := (40, 25)\<rparr>)\<rparr>)
     = Some initialViewerState
   \<and> viewer (pressPrevious [mkPhoto ''P1'' ''a'', mkPhoto ''P2'' ''b'', mkPhoto ''P3'' ''c'']
      \<lparr>selectedPhoto = Obj (mkPhoto ''P3'' ''c''),
       viewer = Some (initialViewerState\<lparr>zoom := 3 / 2, position := (40, 25)\<rparr>)\<rparr>)
     = Some initialViewerState
   \<and> selectedPhoto (pressNext [mkPhoto ''P1'' ''a'', mkPhoto ''P2'' ''b'', mkPhoto ''P3'' ''c'']
      \<lparr>selectedPhoto = Obj (mkPhoto ''P3'' ''c''),
       viewer = Some (initialViewerState\<lparr>zoom := 3 / 2, position := (40, 25)\<rparr>)\<rparr>)
     = Obj (mkPhoto ''P1'' ''a'')
   \<and> viewer (pressNext [mkPhoto ''P1'' ''a'']
      \<lparr>selectedPhoto = Obj (mkPhoto ''P1'' ''a''),
       viewer = Some (initialViewerState\<lparr>zoom := 3 / 2, position := (40, 25)\<rparr>)\<rparr>)
     = Some (initialViewerState\<lparr>zoom := 3 / 2, position := (40, 25)\<rparr>)"
proof -
  let ?xs = "[mkPhoto ''P1'' ''a'', mkPhoto ''P2'' ''b'', mkPhoto ''P3'' ''c'']"
  let ?v = "initialViewerState\<lparr>zoom := 3 / 2, position := (40, 25)\<rparr>"
  let ?s = "\<lparr>selectedPhoto = Obj (mkPhoto ''P3'' ''c''), viewer = Some ?v\<rparr>"
  let ?t = "\<lparr>selectedPhoto = Obj (mkPhoto ''P1'' ''a''), viewer = Some ?v\<rparr>"
  have s: "selectedPhoto ?s = Obj (mkPhoto ''P3'' ''c'')" "viewer ?s = Some ?v" by simp_all
  have t: "selectedPhoto ?t = Obj (mkPhoto ''P1'' ''a'')" "viewer ?t = Some ?v" by simp_all
  have many: "idP (mkPhoto ''P3'' ''c'') \<in> idP ` set ?xs \<and> distinct (map idP ?xs) \<and> 1 < length ?xs"
    by (simp add: mkPhoto_def)
  have one: "idP (mkPhoto ''P1'' ''a'') \<in> idP ` set [mkPhoto ''P1'' ''a'']
           \<and> length [mkPhoto ''P1'' ''a''] = 1" by simp
  have nx: "onNext ?xs (mkPhoto ''P3'' ''c'') = Obj (mkPhoto ''P1'' ''a'')"
    by (simp add: onNext_def js_rem_def mkPhoto_def Let_def)
  have r: "?v\<lparr>zoom := 1, position := (0, 0)\<rparr> = initialViewerState"
    by (simp add: initialViewerState_def)
  from next_previous_reset_on_id_change [OF s, of ?xs] many nx r
  have a: "viewer (pressNext ?xs ?s) = Some initialViewerState"
    and b: "viewer (pressPrevious ?xs ?s) = Some initialViewerState"
    and c: "selectedPhoto (pressNext ?xs ?s) = Obj (mkPhoto ''P1'' ''a'')"
    by simp_all
  from next_previous_reset_on_id_change [OF t, of "[mkPhoto ''P1'' ''a'']"] one
  have d: "viewer (pressNext [mkPhoto ''P1'' ''a''] ?t) = Some ?v" by blast
  from a b c d show ?thesis by simp
qed

text \<open>
  Claim C2 as stated asks for zoom \<open>1\<close> and pan \<open>(0, 0)\<close> after next and previous also in a
  sequence of one photo. There, a viewer zoomed in once and dragged by \<open>(40, 25)\<close> still
  has zoom \<open>1.5\<close> and pan \<open>(40, 25)\<close> after either operation.
\<close>

theorem single_photo_keeps_zoom_and_pan:
  "map_option zoom (viewer (pressNext [mkPhoto ''P1'' ''a'']
      \<lparr>selectedPhoto = Obj (mkPhoto ''P1'' ''a''),
       viewer = Some (handleMouseUp (handleMouseMove (140, 125) (handleMouseDown (100, 100)
                  (handleZoomIn id initialViewerState))))\<rparr>))
     = Some (3 / 2)
   \<and> map_option position (viewer (pressNext [mkPhoto ''P1'' ''a'']
      \<lparr>selectedPhoto = Obj (mkPhoto ''P1'' ''a''),
       viewer = Some (handleMouseUp (handleMouseMove (140, 125) (handleMouseDown (100, 100)
                  (handleZoomIn id initialViewerState))))\<rparr>))
     = Some (40, 25)
   \<and> map_option zoom (viewer (pressPrevious [mkPhoto ''P1'' ''a'']
      \<lparr>selectedPhoto = Obj (mkPhoto ''P1'' ''a''),
       viewer = Some (handleMouseUp (handleMouseMove (140, 125) (handleMouseDown (100, 100)
                  (handleZoomIn id initialViewerState))))\<rparr>))
     = Some (3 / 2)
   \<and> map_option position (viewer (pressPrevious [mkPhoto ''P1'' ''a'']
      \<lparr>selectedPhoto = Obj (mkPhoto ''P1'' ''a''),
       viewer = Some (handleMouseUp (handleMouseMove (140, 125) (handleMouseDown (100, 100)
                  (handleZoomIn id initialViewerState))))\<rparr>))
     = Some (40, 25)
   \<and> map_option zoom (viewer (pressNext [mkPhoto ''P1'' ''a'']
      \<lparr>selectedPhoto = Obj (mkPhoto ''P1'' ''a''),
       viewer = Some (handleMouseUp (handleMouseMove (140, 125) (handleMouseDown (100, 100)
                  (handleZoomIn id initialViewerState))))\<rparr>))
     \<noteq> Some 1"
  by (simp add: pressNext_def pressPrevious_def onNext_def onPrevious_def js_rem_def Let_def
      resetEffect_def handleMouseUp_def handleMouseMove_def handleMouseDown_def
      handleZoomIn_def initialViewerState_def mkPhoto_def)

section \<open>Selection: sets, toggles and the mode\<close>

lemma set_set_add: "set (set_add x xs) = insert x (set xs)"
  by (auto simp: set_add_def)

lemma distinct_set_add: "distinct xs \<Longrightarrow> distinct (set_add x xs)"
  by (simp add: set_add_def)

lemma set_set_delete: "set (set_delete x xs) = set xs - {x}"
  by (simp add: set_delete_def)

lemma distinct_set_delete: "distinct xs \<Longrightarrow> distinct (set_delete x xs)"
  by (simp add: set_delete_def distinct_removeAll)

lemma fold_set_add: "set (fold set_add xs acc) = set xs \<union> set acc"
  by (induction xs arbitrary: acc) (auto simp: set_set_add)

lemma distinct_fold_set_add: "distinct acc \<Longrightarrow> distinct (fold set_add xs acc)"
  by (induction xs arbitrary: acc) (auto simp: distinct_set_add)

lemma set_new_Set: "set (new_Set xs) = set xs"
  by (simp add: new_Set_def fold_set_add)

lemma distinct_new_Set: "distinct (new_Set xs)"
  by (simp add: new_Set_def distinct_fold_set_add)

lemma new_Set_Nil: "new_Set [] = []"
  by (simp add: new_Set_def)

lemma new_Set_empty_iff: "new_Set xs = [] \<longleftrightarrow> xs = []"
  using set_new_Set [of xs] by (metis set_empty)

lemma toggle_set:
  "set (selectedPhotos (togglePhotoSelection photoId s)) =
     (if photoId \<in> set (selectedPhotos s) then set (selectedPhotos s) - {photoId}
      else insert photoId (set (selectedPhotos s)))"
  by (simp add: togglePhotoSelection_def Let_def set_has_def set_set_add set_set_delete)

lemma toggle_mode:
  "isSelectionMode (togglePhotoSelection photoId s) =
     (isSelectionMode s \<and> selectedPhotos (togglePhotoSelection photoId s) \<noteq> [])"
  by (simp add: togglePhotoSelection_def Let_def)

lemma toggle_distinct:
  "distinct (selectedPhotos s) \<Longrightarrow> distinct (selectedPhotos (togglePhotoSelection photoId s))"
  by (simp add: togglePhotoSelection_def Let_def distinct_set_add distinct_set_delete)

lemma toggle_member:
  "x \<in> set (selectedPhotos (togglePhotoSelection photoId s))
     \<longleftrightarrow> (x \<in> set (selectedPhotos s)) \<noteq> (x = photoId)"
  by (auto simp: toggle_set)

lemma toggles_member:
  "x \<in> set (selectedPhotos (fold togglePhotoSelection ids s))
     \<longleftrightarrow> (x \<in> set (selectedPhotos s)) \<noteq> odd (count_list ids x)"
proof (induction ids arbitrary: s)
  case Nil
  then show ?case by simp
next
  case (Cons a ids)
  show ?case
    by (simp add: Cons.IH toggle_member) blast
qed

text \<open>
  Claim C4. In selection mode a click on a photo is \<open>togglePhotoSelection\<close> of its id
  (the viewer is not opened). The toggle removes the id from the selected set when it is
  there and adds it when it is not, and changes no other member; the mode afterwards is
  Selecting exactly when it was Selecting before and the new set is not empty. Hence
  after any sequence of toggles an id is selected exactly when it was selected before
  and toggled an even number of times, or was not and toggled an odd number of times:
  from the empty set of Normal, the selected ids are those toggled an odd number of
  times, the long press that enters selection mode counting as the toggle of its photo.
\<close>

theorem toggle_selection_parity:
  "(isSelectionMode s \<longrightarrow> handlePhotoClick photo s = (togglePhotoSelection (idP photo) s, None))
   \<and> set (selectedPhotos (togglePhotoSelection photoId s)) =
       (if photoId \<in> set (selectedPhotos s) then set (selectedPhotos s) - {photoId}
        else insert photoId (set (selectedPhotos s)))
   \<and> isSelectionMode (togglePhotoSelection photoId s) =
       (isSelectionMode s \<and> selectedPhotos (togglePhotoSelection photoId s) \<noteq> [])
   \<and> set (selectedPhotos (fold togglePhotoSelection ids s)) =
       {x. (x \<in> set (selectedPhotos s)) \<noteq> odd (count_list ids x)}
   \<and> (selectedPhotos s = [] \<longrightarrow>
        set (selectedPhotos (fold togglePhotoSelection ids s)) = {x. odd (count_list ids x)})
   \<and> set (selectedPhotos (fold togglePhotoSelection ids (startSelectionMode photoId s))) =
       {x. odd (count_list (photoId # ids) x)}"
proof -
  have a: "set (selectedPhotos (fold togglePhotoSelection ids t)) =
       {x. (x \<in> set (selectedPhotos t)) \<noteq> odd (count_list ids x)}" for t
    using toggles_member [of _ ids t] by blast
  have b: "set (selectedPhotos (startSelectionMode photoId s)) = {photoId}"
    by (simp add: startSelectionMode_def set_new_Set)
  have c: "set (selectedPhotos (fold togglePhotoSelection ids (startSelectionMode photoId s))) =
       {x. odd (count_list (photoId # ids) x)}"
    unfolding a b by auto
  from a [of s] c show ?thesis
    by (simp add: handlePhotoClick_def toggle_set toggle_mode)
qed

theorem toggle_selection_parity_witness:
  "handlePhotoClick (mkPhoto ''P1'' ''a'') (startSelectionMode ''P1'' initialSelection)
     = (\<lparr>selectedPhotos = [], isSelectionMode = False\<rparr>, None)
   \<and> selectedPhotos (fold togglePhotoSelection [''P1'', ''P2'', ''P1'', ''P3''] initialSelection)
     = [''P2'', ''P3'']
   \<and> {x. odd (count_list [''P1'', ''P2'', ''P1'', ''P3''] x)} = {''P2'', ''P3''}"
proof -
  let ?s = "startSelectionMode ''P1'' initialSelection"
  have m: "isSelectionMode ?s" by (simp add: startSelectionMode_def)
  have e: "selectedPhotos initialSelection = []"
    by (simp add: initialSelection_def new_Set_def)
  have t: "togglePhotoSelection (idP (mkPhoto ''P1'' ''a'')) ?s
      = \<lparr>selectedPhotos = [], isSelectionMode = False\<rparr>"
    by (simp add: togglePhotoSelection_def startSelectionMode_def new_Set_def set_add_def
        set_has_def set_delete_def mkPhoto_def Let_def)
  have r: "selectedPhotos (fold togglePhotoSelection [''P1'', ''P2'', ''P1'', ''P3''] initialSelection)
      = [''P2'', ''P3'']"
    by (simp add: togglePhotoSelection_def initialSelection_def new_Set_def set_add_def
        set_has_def set_delete_def Let_def)
  from toggle_selection_parity [of ?s "mkPhoto ''P1'' ''a''" "''P1''" "[]"] m t
  have a: "handlePhotoClick (mkPhoto ''P1'' ''a'') ?s
      = (\<lparr>selectedPhotos = [], isSelectionMode = False\<rparr>, None)" by simp
  from toggle_selection_parity [of initialSelection "mkPhoto ''P1'' ''a''" "''P1''"
      "[''P1'', ''P2'', ''P1'', ''P3'']"] e
  have "set (selectedPhotos (fold togglePhotoSelection [''P1'', ''P2'', ''P1'', ''P3''] initialSelection))
      = {x. odd (count_list [''P1'', ''P2'', ''P1'', ''P3''] x)}" by blast
  with r have b: "{x. odd (count_list [''P1'', ''P2'', ''P1'', ''P3''] x)} = {''P2'', ''P3''}"
    by simp
  from a r b show ?thesis by simp
qed

lemma gridStep_invariant:
  assumes "isSelectionMode s \<longleftrightarrow> selectedPhotos s \<noteq> []" and "distinct (selectedPhotos s)"
  shows "(isSelectionMode (gridStep s pe) \<longleftrightarrow> selectedPhotos (gridStep s pe) \<noteq> [])
       \<and> distinct (selectedPhotos (gridStep s pe))"
proof (cases "snd pe")
  case (Click photo)
  with assms show ?thesis
    by (simp add: gridStep_def Let_def handlePhotoClick_def toggle_mode toggle_distinct)
next
  case (ContextMenu photo)
  with assms show ?thesis
    by (simp add: gridStep_def Let_def startSelectionMode_def new_Set_empty_iff distinct_new_Set)
next
  case SelectAll
  with assms show ?thesis
    by (simp add: gridStep_def Let_def selectAllPhotos_def new_Set_empty_iff distinct_new_Set)
next
  case FavoriteButton
  with assms show ?thesis by (simp add: gridStep_def Let_def)
next
  case DownloadButton
  with assms show ?thesis by (simp add: gridStep_def Let_def)
next
  case DeleteButton
  with assms show ?thesis
    by (simp add: gridStep_def Let_def deleteSelected_def exitSelectionMode_def new_Set_Nil)
next
  case CancelButton
  with assms show ?thesis
    by (simp add: gridStep_def Let_def exitSelectionMode_def new_Set_Nil)
next
  case Remount
  then show ?thesis
    by (simp add: gridStep_def Let_def initialSelection_def new_Set_Nil)
qed

text \<open>
  \<open>selectAllPhotos\<close> itself never touches the mode: called with no photos it would empty
  the selected set and leave the mode as it is. The grid never calls it so, because the
  button is not rendered for an empty \<open>photos\<close>.
\<close>

lemma selectAllPhotos_empty:
  "selectAllPhotos [] s = s\<lparr>selectedPhotos := []\<rparr>"
  by (simp add: selectAllPhotos_def new_Set_Nil)

lemma gridRun_invariant:
  "(isSelectionMode (gridRun events) \<longleftrightarrow> selectedPhotos (gridRun events) \<noteq> [])
   \<and> distinct (selectedPhotos (gridRun events))"
proof (induction events rule: rev_induct)
  case Nil
  show ?case by (simp add: gridRun_def initialSelection_def new_Set_Nil)
next
  case (snoc pe events)
  then have "(isSelectionMode (gridRun events) \<longleftrightarrow> selectedPhotos (gridRun events) \<noteq> [])"
    and "distinct (selectedPhotos (gridRun events))" by simp_all
  from gridStep_invariant [OF this, of pe] show ?case by (simp add: gridRun_def)
qed


text \<open>
  Claim C5. After any sequence of events on the grid (context menu, click, select all,
  cancel, the bulk buttons), under any props, the grid is in selection mode if and only
  if the selected set is not empty. Select-all is part of the toolbar, which exists only
  in selection mode and only for a non-empty \<open>photos\<close>: with an empty visible set, or in
  Normal, a select-all changes nothing, so a grid in Normal stays in Normal.
\<close>

theorem selection_mode_iff_nonempty:
  "(isSelectionMode (gridRun events) \<longleftrightarrow> selectedPhotos (gridRun events) \<noteq> [])
   \<and> (photosProp props = [] \<longrightarrow> gridStep s (props, SelectAll) = s)
   \<and> (\<not> isSelectionMode s \<longrightarrow> gridStep s (props, SelectAll) = s)"
  using gridRun_invariant [of events] by (simp add: gridStep_def)

theorem selection_mode_iff_nonempty_witness:
  "gridRun [(\<lparr>photosProp = [mkPhoto ''P1'' ''a'', mkPhoto ''P2'' ''b''], onDeletePhotoProp = False\<rparr>,
             ContextMenu (mkPhoto ''P1'' ''a'')),
            (\<lparr>photosProp = [mkPhoto ''P1'' ''a'', mkPhoto ''P2'' ''b''], onDeletePhotoProp = False\<rparr>,
             SelectAll)]
     = \<lparr>selectedPhotos = [''P1'', ''P2''], isSelectionMode = True\<rparr>
   \<and> gridRun [(\<lparr>photosProp = [mkPhoto ''P1'' ''a'', mkPhoto ''P2'' ''b''], onDeletePhotoProp = False\<rparr>,
             ContextMenu (mkPhoto ''P1'' ''a'')),
            (\<lparr>photosProp = [mkPhoto ''P1'' ''a'', mkPhoto ''P2'' ''b''], onDeletePhotoProp = False\<rparr>,
             Click (mkPhoto ''P1'' ''a''))]
     = \<lparr>selectedPhotos = [], isSelectionMode = False\<rparr>
   \<and> gridStep initialSelection (\<lparr>photosProp = [], onDeletePhotoProp = False\<rparr>, SelectAll)
     = initialSelection
   \<and> gridStep \<lparr>selectedPhotos = [''P1''], isSelectionMode = True\<rparr>
        (\<lparr>photosProp = [], onDeletePhotoProp = False\<rparr>, SelectAll)
     = \<lparr>selectedPhotos = [''P1''], isSelectionMode = True\<rparr>"
proof -
  let ?pr = "\<lparr>photosProp = [mkPhoto ''P1'' ''a'', mkPhoto ''P2'' ''b''], onDeletePhotoProp = False\<rparr>"
  let ?e = "\<lparr>photosProp = [], onDeletePhotoProp = False\<rparr>"
  have a: "gridRun [(?pr, ContextMenu (mkPhoto ''P1'' ''a'')), (?pr, SelectAll)]
      = \<lparr>selectedPhotos = [''P1'', ''P2''], isSelectionMode = True\<rparr>"
    by (simp add: gridRun_def gridStep_def initialSelection_def startSelectionMode_def
        selectAllPhotos_def new_Set_def set_add_def mkPhoto_def Let_def)
  have b: "gridRun [(?pr, ContextMenu (mkPhoto ''P1'' ''a'')), (?pr, Click (mkPhoto ''P1'' ''a''))]
      = \<lparr>selectedPhotos = [], isSelectionMode = False\<rparr>"
    by (simp add: gridRun_def gridStep_def initialSelection_def startSelectionMode_def
        handlePhotoClick_def togglePhotoSelection_def new_Set_def set_add_def set_has_def
        set_delete_def mkPhoto_def Let_def)
  have n: "\<not> isSelectionMode initialSelection" by (simp add: initialSelection_def)
  have p: "photosProp ?e = []" by simp
  from selection_mode_iff_nonempty [of "[]" ?e initialSelection] n
  have c: "gridStep initialSelection (?e, SelectAll) = initialSelection" by blast
  from selection_mode_iff_nonempty [of "[]" ?e "\<lparr>selectedPhotos = [''P1''], isSelectionMode = True\<rparr>"] p
  have d: "gridStep \<lparr>selectedPhotos = [''P1''], isSelectionMode = True\<rparr> (?e, SelectAll)
      = \<lparr>selectedPhotos = [''P1''], isSelectionMode = True\<rparr>" by blast
  from a b c d show ?thesis by simp
qed

section \<open>Selection: bulk actions\<close>

lemma fold_record_call: "fold record_call xs acc = acc @ xs"
  by (induction xs arbitrary: acc) (simp_all add: record_call_def)

lemma count_list_distinct: "distinct xs \<Longrightarrow> count_list xs x = (if x \<in> set xs then 1 else 0)"
  by (induction xs) auto

lemma find_id_Some: "i \<in> idP ` set photos \<Longrightarrow> \<exists>p. find (\<lambda>p. idP p = i) photos = Some p \<and> idP p = i"
  by (induction photos) auto

lemma find_id_None: "i \<notin> idP ` set photos \<Longrightarrow> find (\<lambda>p. idP p = i) photos = None"
  by (induction photos) auto

lemma download_ids:
  "map idP (fold (downloadOne record_call photos) ids acc)
     = map idP acc @ filter (\<lambda>i. i \<in> idP ` set photos) ids"
proof (induction ids arbitrary: acc)
  case Nil
  then show ?case by simp
next
  case (Cons i ids)
  show ?case
  proof (cases "i \<in> idP ` set photos")
    case True
    from find_id_Some [OF this] obtain p where "find (\<lambda>p. idP p = i) photos = Some p" "idP p = i"
      by blast
    then have "downloadOne record_call photos i acc = acc @ [p]"
      by (simp add: downloadOne_def record_call_def)
    with True \<open>idP p = i\<close> show ?thesis
      by (simp add: Cons.IH)
  next
    case False
    from find_id_None [OF this] have "downloadOne record_call photos i acc = acc"
      by (simp add: downloadOne_def)
    with False show ?thesis
      by (simp add: Cons.IH)
  qed
qed

text \<open>
  Claim C6. In every state the grid can reach, the selected set has no id twice, and
  each bulk button runs its per-id body once for each selected id, in the order of the
  set: the favorite button calls \<open>onToggleFavorite\<close> exactly once with each selected id
  and with no other; the download button runs \<open>downloadOne\<close> once per selected id, which
  downloads the photo exactly once when \<open>photos\<close> has one with that id; the delete
  button calls \<open>onDeletePhoto\<close> exactly once with each selected id and then leaves the
  grid in Normal with an empty selected set.
\<close>

theorem bulk_actions_visit_each_once:
  "distinct (selectedPhotos (gridRun events))
   \<and> favoriteSelected record_call (gridRun events) [] = selectedPhotos (gridRun events)
   \<and> count_list (favoriteSelected record_call (gridRun events) []) i
       = (if i \<in> set (selectedPhotos (gridRun events)) then 1 else 0)
   \<and> downloadSelected downloadPhoto photos (gridRun events) w
       = fold (downloadOne downloadPhoto photos) (selectedPhotos (gridRun events)) w
   \<and> count_list (map idP (downloadSelected record_call photos (gridRun events) [])) i
       = (if i \<in> set (selectedPhotos (gridRun events)) \<and> i \<in> idP ` set photos then 1 else 0)
   \<and> snd (deleteSelected record_call (gridRun events) []) = selectedPhotos (gridRun events)
   \<and> count_list (snd (deleteSelected record_call (gridRun events) [])) i
       = (if i \<in> set (selectedPhotos (gridRun events)) then 1 else 0)
   \<and> fst (deleteSelected onDeletePhoto (gridRun events) w)
       = \<lparr>selectedPhotos = [], isSelectionMode = False\<rparr>"
proof -
  let ?s = "gridRun events"
  have d: "distinct (selectedPhotos ?s)" using gridRun_invariant [of events] by simp
  have f: "favoriteSelected record_call ?s [] = selectedPhotos ?s"
    by (simp add: favoriteSelected_def fold_record_call)
  have x: "snd (deleteSelected record_call ?s []) = selectedPhotos ?s"
    by (simp add: deleteSelected_def fold_record_call)
  have l: "map idP (downloadSelected record_call photos ?s [])
      = filter (\<lambda>i. i \<in> idP ` set photos) (selectedPhotos ?s)"
    by (simp add: downloadSelected_def download_ids)
  from d have "distinct (filter (\<lambda>i. i \<in> idP ` set photos) (selectedPhotos ?s))" by simp
  from count_list_distinct [OF this, of i]
  have c: "count_list (map idP (downloadSelected record_call photos ?s [])) i
       = (if i \<in> set (selectedPhotos ?s) \<and> i \<in> idP ` set photos then 1 else 0)"
    unfolding l by simp
  have e: "fst (deleteSelected onDeletePhoto ?s w) = \<lparr>selectedPhotos = [], isSelectionMode = False\<rparr>"
    by (simp add: deleteSelected_def exitSelectionMode_def new_Set_Nil)
  from d f x c e count_list_distinct [OF d, of i] show ?thesis
    by (simp add: downloadSelected_def)
qed


theorem bulk_actions_visit_each_once_witness:
  "selectedPhotos (gridRun
      [(\<lparr>photosProp = [mkPhoto ''P1'' ''a'', mkPhoto ''P2'' ''b''], onDeletePhotoProp = True\<rparr>,
        ContextMenu (mkPhoto ''P2'' ''b'')),
       (\<lparr>photosProp = [mkPhoto ''P1'' ''a'', mkPhoto ''P2'' ''b''], onDeletePhotoProp = True\<rparr>,
        Click (mkPhoto ''P1'' ''a''))])
     = [''P2'', ''P1'']
   \<and> favoriteSelected record_call (gridRun
      [(\<lparr>photosProp = [mkPhoto ''P1'' ''a'', mkPhoto ''P2'' ''b''], onDeletePhotoProp = True\<rparr>,
        ContextMenu (mkPhoto ''P2'' ''b'')),
       (\<lparr>photosProp = [mkPhoto ''P1'' ''a'', mkPhoto ''P2'' ''b''], onDeletePhotoProp = True\<rparr>,
        Click (mkPhoto ''P1'' ''a''))]) []
     = [''P2'', ''P1'']
   \<and> count_list (map idP (downloadSelected record_call [mkPhoto ''P1'' ''a''] (gridRun
      [(\<lparr>photosProp = [mkPhoto ''P1'' ''a'', mkPhoto ''P2'' ''b''], onDeletePhotoProp = True\<rparr>,
        ContextMenu (mkPhoto ''P2'' ''b'')),
       (\<lparr>photosProp = [mkPhoto ''P1'' ''a'', mkPhoto ''P2'' ''b''], onDeletePhotoProp = True\<rparr>,
        Click (mkPhoto ''P1'' ''a''))]) [])) ''P1''
     = 1
   \<and> deleteSelected record_call (gridRun
      [(\<lparr>photosProp = [mkPhoto ''P1'' ''a'', mkPhoto ''P2'' ''b''], onDeletePhotoProp = True\<rparr>,
        ContextMenu (mkPhoto ''P2'' ''b'')),
       (\<lparr>photosProp = [mkPhoto ''P1'' ''a'', mkPhoto ''P2'' ''b''], onDeletePhotoProp = True\<rparr>,
        Click (mkPhoto ''P1'' ''a''))]) []
     = (\<lparr>selectedPhotos = [], isSelectionMode = False\<rparr>, [''P2'', ''P1''])"
proof -
  let ?pr = "\<lparr>photosProp = [mkPhoto ''P1'' ''a'', mkPhoto ''P2'' ''b''], onDeletePhotoProp = True\<rparr>"
  let ?evs = "[(?pr, ContextMenu (mkPhoto ''P2'' ''b'')), (?pr, Click (mkPhoto ''P1'' ''a''))]"
  have r: "gridRun ?evs = \<lparr>selectedPhotos = [''P2'', ''P1''], isSelectionMode = True\<rparr>"
    by (simp add: gridRun_def gridStep_def initialSelection_def startSelectionMode_def
        handlePhotoClick_def togglePhotoSelection_def new_Set_def set_add_def set_has_def
        set_delete_def mkPhoto_def Let_def)
  have m: "''P1'' \<in> idP ` set [mkPhoto ''P1'' ''a'']" by (simp add: mkPhoto_def)
  from bulk_actions_visit_each_once [where events = ?evs and i = "''P1''"
      and photos = "[mkPhoto ''P1'' ''a'']" and onDeletePhoto = record_call and w = "[]"] m
  show ?thesis
    unfolding r by (simp add: prod_eq_iff)
qed

section \<open>Grouping by date\<close>

lemma map_fst_pushTo: "map fst (pushTo date photo groups) = map fst groups"
  by (induction groups) auto

lemma map_of_pushTo:
  "map_of groups date = Some arr \<Longrightarrow>
     map_of (pushTo date photo groups) = (map_of groups)(date \<mapsto> arr @ [photo])"
  by (induction groups) (auto simp: fun_eq_iff)

lemma mset_pushTo:
  "date \<in> fst ` set groups \<Longrightarrow>
     mset (concat (map snd (pushTo date photo groups)))
       = mset (concat (map snd groups)) + {#photo#}"
  by (induction groups) force+

lemma grouped_upto_Nil: "grouped_upto formatDate [] []"
  by (simp add: grouped_upto_def)

lemma groupStep_grouped:
  assumes inv: "grouped_upto formatDate groups seen"
    and ok: "formatDate (uploadedAt photo) \<notin> set objectPrototypeKeys"
  shows "\<exists>groups'. groupStep formatDate groups photo = Inr groups'
           \<and> grouped_upto formatDate groups' (seen @ [photo])"
proof -
  let ?d = "formatDate (uploadedAt photo)"
  let ?f = "\<lambda>d xs. filter (\<lambda>p. formatDate (uploadedAt p) = d) xs"
  from inv have dist: "distinct (map fst groups)"
    and lk: "\<And>d. map_of groups d = (if ?f d seen = [] then None else Some (?f d seen))"
    and ms: "mset (concat (map snd groups)) = mset seen"
    by (simp_all add: grouped_upto_def)
  show ?thesis
  proof (cases "map_of groups ?d")
    case (Some arr)
    let ?g = "pushTo ?d photo groups"
    from Some lk [of ?d] have arr: "arr = ?f ?d seen" by (auto split: if_splits)
    from Some have mem: "?d \<in> fst ` set groups" by (metis map_of_eq_None_iff option.distinct(1))
    have step: "groupStep formatDate groups photo = Inr ?g"
      using Some by (simp add: groupStep_def Let_def)
    have "map_of ?g d = (if ?f d (seen @ [photo]) = [] then None else Some (?f d (seen @ [photo])))"
      for d
      using lk [of d] arr by (simp add: map_of_pushTo [OF Some])
    moreover have "distinct (map fst ?g)" using dist by (simp add: map_fst_pushTo)
    moreover have "mset (concat (map snd ?g)) = mset (seen @ [photo])"
      using ms by (simp add: mset_pushTo [OF mem])
    ultimately have "grouped_upto formatDate ?g (seen @ [photo])"
      by (simp add: grouped_upto_def)
    with step show ?thesis by blast
  next
    case None
    let ?ini = "groups @ [(?d, [])]"
    let ?g = "pushTo ?d photo ?ini"
    from None have notin: "?d \<notin> fst ` set groups" by (simp add: map_of_eq_None_iff)
    from None lk [of ?d] have emp: "?f ?d seen = []" by (auto split: if_splits)
    have g0: "map_of ?ini ?d = Some []" using None by (simp add: map_add_def)
    have step: "groupStep formatDate groups photo = Inr ?g"
      using None ok by (simp add: groupStep_def Let_def)
    have "map_of ?g d = (if ?f d (seen @ [photo]) = [] then None else Some (?f d (seen @ [photo])))"
      for d
      using lk [of d] emp None by (auto simp: map_of_pushTo [OF g0] map_add_def)
    moreover have "distinct (map fst ?g)" using dist notin by (simp add: map_fst_pushTo)
    moreover have "mset (concat (map snd ?g)) = mset (seen @ [photo])"
      using ms by (simp add: mset_pushTo [of ?d ?ini])
    ultimately have "grouped_upto formatDate ?g (seen @ [photo])"
      by (simp add: grouped_upto_def)
    with step show ?thesis by blast
  qed
qed

lemma reduceGroups_grouped:
  assumes "grouped_upto formatDate groups seen"
    and "\<forall>p \<in> set photos. formatDate (uploadedAt p) \<notin> set objectPrototypeKeys"
  shows "\<exists>groups'. reduceGroups formatDate photos groups = Inr groups'
           \<and> grouped_upto formatDate groups' (seen @ photos)"
  using assms
proof (induction photos arbitrary: groups seen)
  case Nil
  then show ?case by simp
next
  case (Cons photo rest)
  from Cons.prems(2) have ok: "formatDate (uploadedAt photo) \<notin> set objectPrototypeKeys"
    and oks: "\<forall>p \<in> set rest. formatDate (uploadedAt p) \<notin> set objectPrototypeKeys" by simp_all
  from groupStep_grouped [OF Cons.prems(1) ok] obtain g where
    g: "groupStep formatDate groups photo = Inr g" "grouped_upto formatDate g (seen @ [photo])"
    by blast
  from Cons.IH [OF g(2) oks] g(1) show ?case by simp
qed

lemma mset_insertSorted: "mset (insertSorted comparefn x ys) = {#x#} + mset ys"
  by (induction ys) auto

lemma mset_js_sort: "mset (js_sort comparefn xs) = mset xs"
  by (induction xs) (auto simp: js_sort_def mset_insertSorted)

lemma mset_objectEntries: "mset (objectEntries obj) = mset obj"
  by (simp add: objectEntries_def)

lemma sorted_insertSorted:
  assumes "sorted_wrt (\<lambda>a b. the (getTime (fst b)) \<le> the (getTime (fst a))) ys"
    and "getTime (fst x) \<noteq> None" and "\<forall>y \<in> set ys. getTime (fst y) \<noteq> None"
  shows "sorted_wrt (\<lambda>a b. the (getTime (fst b)) \<le> the (getTime (fst a)))
           (insertSorted (compareByDateDesc getTime) x ys)"
  using assms
proof (induction ys)
  case Nil
  then show ?case by simp
next
  case (Cons y ys)
  from Cons.prems obtain tx ty where t: "getTime (fst x) = Some tx" "getTime (fst y) = Some ty"
    by auto
  then have c: "sortCompare (compareByDateDesc getTime) x y = ty - tx"
    by (simp add: sortCompare_def compareByDateDesc_def)
  show ?case
  proof (cases "ty \<le> tx")
    case True
    with c t Cons.prems(1) show ?thesis by auto
  next
    case False
    from Cons.prems have "sorted_wrt (\<lambda>a b. the (getTime (fst b)) \<le> the (getTime (fst a)))
           (insertSorted (compareByDateDesc getTime) x ys)"
      by (intro Cons.IH) auto
    moreover have "set (insertSorted (compareByDateDesc getTime) x ys) = insert x (set ys)"
      using mset_insertSorted [of "compareByDateDesc getTime" x ys]
      by (metis add_mset_add_single set_mset_mset set_mset_add_mset_insert union_commute)
    ultimately show ?thesis using False c t Cons.prems(1) by auto
  qed
qed

lemma sorted_js_sort:
  "\<forall>x \<in> set xs. getTime (fst x) \<noteq> None \<Longrightarrow>
     sorted_wrt (\<lambda>a b. the (getTime (fst b)) \<le> the (getTime (fst a)))
       (js_sort (compareByDateDesc getTime) xs)"
proof (induction xs)
  case Nil
  then show ?case by (simp add: js_sort_def)
next
  case (Cons x xs)
  then have s: "sorted_wrt (\<lambda>a b. the (getTime (fst b)) \<le> the (getTime (fst a)))
       (js_sort (compareByDateDesc getTime) xs)" by simp
  have "set (js_sort (compareByDateDesc getTime) xs) = set xs"
    by (metis mset_js_sort set_mset_mset)
  with Cons.prems have "\<forall>y \<in> set (js_sort (compareByDateDesc getTime) xs). getTime (fst y) \<noteq> None"
    by simp
  from sorted_insertSorted [OF s _ this, of x] Cons.prems show ?case
    by (simp add: js_sort_def)
qed


lemma mset_concat_snd_cong:
  assumes "mset xs = mset ys"
  shows "mset (concat (map snd xs)) = mset (concat (map snd ys))"
proof -
  have "mset (concat (map snd zs)) = sum_mset (image_mset (\<lambda>z. mset (snd z)) (mset zs))"
    for zs :: "('a \<times> 'b list) list"
    by (induction zs) auto
  with assms show ?thesis by simp
qed

text \<open>
  Claim C7. When no date label is the name of a property of \<open>Object.prototype\<close> (as for
  every label a date formatter produces), \<open>groupByDate\<close> returns buckets that partition
  the input: the labels of the buckets are pairwise different and are the labels of the
  photos; a bucket holds exactly the photos of its label, in their order in the input;
  every input photo is in exactly one bucket, and the buckets together hold the input
  photos, each as often as the input does. When every label parses to a date, the
  buckets are in non-increasing order of the date their label parses to.
\<close>

theorem groupByDate_partition:
  assumes "\<forall>p \<in> set photos. formatDate (uploadedAt p) \<notin> set objectPrototypeKeys"
  shows "\<exists>buckets. groupByDate formatDate getTime photos = Inr buckets
          \<and> distinct (map fst buckets)
          \<and> fst ` set buckets = (\<lambda>p. formatDate (uploadedAt p)) ` set photos
          \<and> (\<forall>b \<in> set buckets.
                snd b = filter (\<lambda>p. formatDate (uploadedAt p) = fst b) photos)
          \<and> (\<forall>p \<in> set photos. \<exists>!b. b \<in> set buckets \<and> p \<in> set (snd b))
          \<and> mset (concat (map snd buckets)) = mset photos
          \<and> ((\<forall>p \<in> set photos. getTime (formatDate (uploadedAt p)) \<noteq> None) \<longrightarrow>
                sorted_wrt (\<lambda>a b. the (getTime (fst b)) \<le> the (getTime (fst a))) buckets)"
proof -
  let ?label = "\<lambda>p. formatDate (uploadedAt p)"
  let ?f = "\<lambda>d. filter (\<lambda>p. ?label p = d) photos"
  from reduceGroups_grouped [OF grouped_upto_Nil assms] obtain g where
    red: "groupedPhotos formatDate photos = Inr g" and inv: "grouped_upto formatDate g photos"
    by (auto simp: groupedPhotos_def)
  from inv have dist: "distinct (map fst g)"
    and lk: "\<And>d. map_of g d = (if ?f d = [] then None else Some (?f d))"
    and ms: "mset (concat (map snd g)) = mset photos"
    by (simp_all add: grouped_upto_def)
  let ?bs = "js_sort (compareByDateDesc getTime) (objectEntries g)"
  have res: "groupByDate formatDate getTime photos = Inr ?bs"
    by (simp add: groupByDate_def red)
  have perm: "mset ?bs = mset g"
    by (simp add: mset_js_sort mset_objectEntries)
  then have sets: "set ?bs = set g" by (rule mset_eq_setD)
  from perm have "mset (map fst ?bs) = mset (map fst g)" by simp
  from mset_eq_imp_distinct_iff [OF this] dist have d1: "distinct (map fst ?bs)" by blast
  have bucket: "snd b = ?f (fst b) \<and> ?f (fst b) \<noteq> []" if "b \<in> set g" for b
  proof -
    from that dist have "map_of g (fst b) = Some (snd b)" by simp
    with lk [of "fst b"] show ?thesis by (auto split: if_splits)
  qed
  have keys: "fst ` set g = ?label ` set photos"
  proof (rule set_eqI)
    fix d
    have "d \<in> fst ` set g \<longleftrightarrow> map_of g d \<noteq> None" by (simp add: map_of_eq_None_iff)
    also have "\<dots> \<longleftrightarrow> ?f d \<noteq> []" by (simp add: lk)
    also have "\<dots> \<longleftrightarrow> d \<in> ?label ` set photos" by (auto simp: filter_empty_conv)
    finally show "d \<in> fst ` set g \<longleftrightarrow> d \<in> ?label ` set photos" .
  qed
  have uniq: "\<exists>!b. b \<in> set g \<and> p \<in> set (snd b)" if p: "p \<in> set photos" for p
  proof -
    from p keys have "?label p \<in> fst ` set g" by auto
    then obtain b where b: "b \<in> set g" "fst b = ?label p" by auto
    from bucket [OF b(1)] b(2) p have "p \<in> set (snd b)" by simp
    moreover have "c = b" if c: "c \<in> set g" "p \<in> set (snd c)" for c
    proof -
      from bucket [OF c(1)] c(2) have "fst c = ?label p" by auto
      with bucket [OF c(1)] bucket [OF b(1)] b(2) show ?thesis by (simp add: prod_eq_iff)
    qed
    ultimately show ?thesis using b(1) by blast
  qed
  have cover: "mset (concat (map snd ?bs)) = mset photos"
    using mset_concat_snd_cong [OF perm] ms by simp
  have srt: "sorted_wrt (\<lambda>a b. the (getTime (fst b)) \<le> the (getTime (fst a))) ?bs"
    if parse: "\<forall>p \<in> set photos. getTime (?label p) \<noteq> None"
  proof -
    have e: "set (objectEntries g) = set g"
      by (rule mset_eq_setD) (rule mset_objectEntries)
    have "getTime (fst x) \<noteq> None" if "x \<in> set (objectEntries g)" for x
    proof -
      from that e have "fst x \<in> fst ` set g" by simp
      with keys obtain p where "p \<in> set photos" "fst x = ?label p" by auto
      with parse show ?thesis by simp
    qed
    then have "\<forall>x \<in> set (objectEntries g). getTime (fst x) \<noteq> None" by blast
    then show ?thesis by (rule sorted_js_sort)
  qed
  have b1: "fst ` set ?bs = ?label ` set photos" using keys by (simp only: sets)
  have b2: "\<forall>b \<in> set ?bs. snd b = ?f (fst b)" using bucket by (simp only: sets) blast
  have b3: "\<forall>p \<in> set photos. \<exists>!b. b \<in> set ?bs \<and> p \<in> set (snd b)"
    using uniq by (simp only: sets) blast
  have b4: "(\<forall>p \<in> set photos. getTime (?label p) \<noteq> None) \<longrightarrow>
      sorted_wrt (\<lambda>a b. the (getTime (fst b)) \<le> the (getTime (fst a))) ?bs"
    using srt by blast
  show ?thesis
    by (rule exI [of _ ?bs]) (intro conjI res d1 b1 b2 b3 cover b4)
qed


theorem groupByDate_partition_witness:
  "groupByDate dayLabel dayNumber
     [photoAt ''P1'' ''2024-01-01T09:30:00.000Z'', photoAt ''P2'' ''2024-01-01T17:05:00.000Z'',
      photoAt ''P3'' ''2024-01-02T08:00:00.000Z'']
   = Inr [(''2024-01-02'', [photoAt ''P3'' ''2024-01-02T08:00:00.000Z'']),
          (''2024-01-01'', [photoAt ''P1'' ''2024-01-01T09:30:00.000Z'',
                            photoAt ''P2'' ''2024-01-01T17:05:00.000Z''])]
   \<and> sorted_wrt (\<lambda>a b. the (dayNumber (fst b)) \<le> the (dayNumber (fst a)))
        [(''2024-01-02'', [photoAt ''P3'' ''2024-01-02T08:00:00.000Z'']),
         (''2024-01-01'', [photoAt ''P1'' ''2024-01-01T09:30:00.000Z'',
                           photoAt ''P2'' ''2024-01-01T17:05:00.000Z''])]"
proof -
  let ?ps = "[photoAt ''P1'' ''2024-01-01T09:30:00.000Z'', photoAt ''P2'' ''2024-01-01T17:05:00.000Z'',
      photoAt ''P3'' ''2024-01-02T08:00:00.000Z'']"
  let ?bs = "[(''2024-01-02'', [photoAt ''P3'' ''2024-01-02T08:00:00.000Z'']),
          (''2024-01-01'', [photoAt ''P1'' ''2024-01-01T09:30:00.000Z'',
                            photoAt ''P2'' ''2024-01-01T17:05:00.000Z''])]"
  have l: "dayLabel (uploadedAt (photoAt i t)) = take 10 t" for i t
    by (simp add: dayLabel_def photoAt_def)
  have ok: "\<forall>p \<in> set ?ps. dayLabel (uploadedAt p) \<notin> set objectPrototypeKeys"
    by (simp add: l objectPrototypeKeys_def)
  have n1: "dayNumber ''2024-01-01'' = Some 20240101" by code_simp
  have n2: "dayNumber ''2024-01-02'' = Some 20240102" by code_simp
  have parse: "\<forall>p \<in> set ?ps. dayNumber (dayLabel (uploadedAt p)) \<noteq> None"
    by (simp add: l n1 n2)
  have run: "groupByDate dayLabel dayNumber ?ps = Inr ?bs"
    by code_simp
  from groupByDate_partition [OF ok, of dayNumber] parse run
  have "sorted_wrt (\<lambda>a b. the (dayNumber (fst b)) \<le> the (dayNumber (fst a))) ?bs"
    by auto
  with run show ?thesis by simp
qed

end
